theory Spec2Isabelle
  imports Main
begin

section \<open>Text helpers used by the hotkey grammar\<close>

text \<open>
  The source works on Python \<open>str\<close> values. They are modelled as \<open>string\<close>, a character
  standing for the code point of its number. \<open>str.strip\<close> removes the characters for
  which \<open>str.isspace\<close> holds: below 256 these are the codes 9 to 13, 28 to 32, 133 (next
  line) and 160 (no-break space). \<open>str.upper\<close> is modelled on the ASCII range, where it
  changes the letters \<open>a\<close> to \<open>z\<close>; the other characters are kept as they are.
\<close>

datatype error = IndexError | KeyError | ValueError

definition isspace :: "char \<Rightarrow> bool" where
  "isspace c =
     (let n = (of_char c :: nat)
      in (9 \<le> n \<and> n \<le> 13) \<or> (28 \<le> n \<and> n \<le> 32) \<or> n = 133 \<or> n = 160)"

definition upper_char :: "char \<Rightarrow> char" where
  "upper_char c = (let n = (of_char c :: nat) in if 97 \<le> n \<and> n \<le> 122 then char_of (n - 32) else c)"

definition upper :: "string \<Rightarrow> string" where
  "upper s = map upper_char s"

definition strip :: "string \<Rightarrow> string" where
  "strip s = rev (dropWhile isspace (rev (dropWhile isspace s)))"

definition startswith :: "string \<Rightarrow> string \<Rightarrow> bool" where
  "startswith s p = (take (length p) s = p)"

definition replace_char :: "char \<Rightarrow> char \<Rightarrow> string \<Rightarrow> string" where
  "replace_char a b s = map (\<lambda>c. if c = a then b else c) s"

text \<open>\<open>s.split(sep)\<close> for a one-character separator: every occurrence cuts, empty pieces are kept.\<close>

fun split_on :: "char \<Rightarrow> string \<Rightarrow> string list" where
  "split_on sep [] = [[]]"
| "split_on sep (c # cs) =
     (if c = sep then [] # split_on sep cs
      else (case split_on sep cs of [] \<Rightarrow> [[c]] | w # ws \<Rightarrow> (c # w) # ws))"

text \<open>\<open>s.split(sep, 1)\<close>: at most one cut, at the first occurrence of the separator.\<close>

definition split_once :: "char \<Rightarrow> string \<Rightarrow> string list" where
  "split_once sep s =
     (case dropWhile (\<lambda>c. c \<noteq> sep) s of
        [] \<Rightarrow> [s]
      | _ # r \<Rightarrow> [takeWhile (\<lambda>c. c \<noteq> sep) s, r])"

text \<open>List indexing with a non-negative index; Python raises \<open>IndexError\<close> out of range.\<close>

definition index :: "'a list \<Rightarrow> nat \<Rightarrow> error + 'a" where
  "index xs i = (if i < length xs then Inr (xs ! i) else Inl IndexError)"

text \<open>\<open>sep.join(xs)\<close>.\<close>

fun join :: "string \<Rightarrow> string list \<Rightarrow> string" where
  "join sep [] = []"
| "join sep [x] = x"
| "join sep (x # y # ys) = x @ sep @ join sep (y # ys)"

section \<open>Hotkey parsing and formatting\<close>

type_synonym trigger = "string \<times> string set \<times> string"

definition is_gamepad_hotkey :: "string \<Rightarrow> bool" where
  "is_gamepad_hotkey s = startswith (upper (strip s)) ''GP:''"

text \<open>One pass of the loop over \<open>parts\<close> in \<open>parse_hotkey\<close>; the state is \<open>(mods, key)\<close>.\<close>

definition classify :: "string \<Rightarrow> string set \<times> string \<Rightarrow> string set \<times> string" where
  "classify p mk =
     (let (mods, key) = mk in
      if p = ''CONTROL'' \<or> p = ''CTRL'' then (insert ''CTRL'' mods, key)
      else if p = ''ALT'' then (insert ''ALT'' mods, key)
      else if p = ''SHIFT'' then (insert ''SHIFT'' mods, key)
      else if p = ''WIN'' \<or> p = ''WINDOWS'' \<or> p = ''SUPER'' \<or> p = ''META'' then (insert ''WIN'' mods, key)
      else (mods, p))"

definition hotkey_parts :: "string \<Rightarrow> string list" where
  "hotkey_parts s =
     map (\<lambda>p. upper (strip p))
       (filter (\<lambda>p. strip p \<noteq> []) (split_on CHR ''+'' (replace_char CHR ''-'' CHR ''+'' s)))"

definition parse_hotkey :: "string \<Rightarrow> error + trigger" where
  "parse_hotkey s0 =
     (let s = strip s0 in
      if s = [] then Inr (''kb'', {}, [])
      else if is_gamepad_hotkey s then
        (case index (split_once CHR '':'' s) 1 of
           Inl e \<Rightarrow> Inl e
         | Inr r \<Rightarrow> Inr (''gp'', {}, upper (strip r)))
      else
        (let parts = hotkey_parts s;
             (mods, key) = fold classify parts ({}, []);
             key' = (if key = [] \<and> parts \<noteq> [] then last parts else key)
         in Inr (''kb'', mods, key')))"

definition format_hotkey :: "string set \<Rightarrow> string \<Rightarrow> string" where
  "format_hotkey mods key =
     (let nice = (if ''CTRL'' \<in> mods then [''Ctrl''] else [])
               @ (if ''ALT'' \<in> mods then [''Alt''] else [])
               @ (if ''SHIFT'' \<in> mods then [''Shift''] else [])
               @ (if ''WIN'' \<in> mods then [''Win''] else []);
          k = upper key;
          nice' = (if k \<noteq> [] then nice @ [k] else nice)
      in if nice' \<noteq> [] then join ''+'' nice' else [])"

section \<open>Engine state and observable effects\<close>

text \<open>
  The configuration dictionary \<open>self.state\<close>. A missing \<open>global_enabled\<close> or feature entry
  reads as \<open>True\<close> (\<open>dict.get(key, True)\<close>); a missing timing raises \<open>KeyError\<close>.
  Timings are integers (milliseconds), as the configuration surface stores them.
\<close>

record config =
  global_enabled :: "bool option"
  features :: "string \<rightharpoonup> bool"
  hotkeys :: "string \<rightharpoonup> string"
  timings :: "string \<rightharpoonup> int"

record engine =
  state :: config
  kb_pressed :: "string set"
  kb_mods :: "string set"
  gp_pressed :: "string set"
  kill :: bool
  running_hold :: "string \<rightharpoonup> bool"
  capture_mode :: bool

text \<open>
  What a macro does, in program order: calls of \<open>key_down\<close>, \<open>key_up\<close>, \<open>mouse_right\<close>,
  \<open>time.sleep\<close> (in milliseconds) and \<open>_beep\<close>, and its writes to the kill flag, the
  hold-loop registry and the global-enable flag.
\<close>

datatype effect =
    KeyDown string
  | KeyUp string
  | MouseRight bool
  | Sleep int
  | Beep bool
  | SetKill bool
  | SetRunning string bool
  | SetGlobal bool
  | ProcessExit

definition get_global :: "config \<Rightarrow> bool" where
  "get_global c = (case global_enabled c of None \<Rightarrow> True | Some b \<Rightarrow> b)"

definition get_feature :: "config \<Rightarrow> string \<Rightarrow> bool" where
  "get_feature c f = (case features c f of None \<Rightarrow> True | Some b \<Rightarrow> b)"

definition get_hotkey :: "config \<Rightarrow> string \<Rightarrow> string \<Rightarrow> string" where
  "get_hotkey c a dflt = (case hotkeys c a of None \<Rightarrow> dflt | Some h \<Rightarrow> h)"

definition get_timing :: "config \<Rightarrow> string \<Rightarrow> error + int" where
  "get_timing c k = (case timings c k of None \<Rightarrow> Inl KeyError | Some v \<Rightarrow> Inr v)"

definition get_running :: "engine \<Rightarrow> string \<Rightarrow> bool" where
  "get_running eng a = (case running_hold eng a of None \<Rightarrow> False | Some b \<Rightarrow> b)"

text \<open>
  A straight-line run of calls. \<open>time.sleep\<close> raises \<open>ValueError\<close> on a negative length;
  the calls before it have happened, the ones after it have not.
\<close>

fun perform :: "effect list \<Rightarrow> effect list \<times> error option" where
  "perform [] = ([], None)"
| "perform (Sleep n # es) =
     (if n < 0 then ([], Some ValueError)
      else (case perform es of (tr, r) \<Rightarrow> (Sleep n # tr, r)))"
| "perform (e # es) = (case perform es of (tr, r) \<Rightarrow> (e # tr, r))"

text \<open>The effect of a trace on the shared engine state.\<close>

fun apply_effect :: "effect \<Rightarrow> engine \<Rightarrow> engine" where
  "apply_effect (SetKill b) eng = eng\<lparr>kill := b\<rparr>"
| "apply_effect (SetRunning a b) eng = eng\<lparr>running_hold := (running_hold eng)(a \<mapsto> b)\<rparr>"
| "apply_effect (SetGlobal b) eng = eng\<lparr>state := (state eng)\<lparr>global_enabled := Some b\<rparr>\<rparr>"
| "apply_effect _ eng = eng"

definition run_effects :: "effect list \<Rightarrow> engine \<Rightarrow> engine" where
  "run_effects tr eng = fold apply_effect tr eng"

text \<open>The synthetic keys left down after a trace, starting from the set \<open>h\<close> of keys down.\<close>

fun key_effect :: "effect \<Rightarrow> string set \<Rightarrow> string set" where
  "key_effect (KeyDown k) h = insert k h"
| "key_effect (KeyUp k) h = h - {k}"
| "key_effect _ h = h"

definition held_after :: "effect list \<Rightarrow> string set \<Rightarrow> string set" where
  "held_after tr h = fold key_effect tr h"

fun mouse_effect :: "effect \<Rightarrow> bool \<Rightarrow> bool" where
  "mouse_effect (MouseRight b) m = b"
| "mouse_effect _ m = m"

definition mouse_after :: "effect list \<Rightarrow> bool \<Rightarrow> bool" where
  "mouse_after tr m = fold mouse_effect tr m"

definition pressed_keys :: "effect list \<Rightarrow> string set" where
  "pressed_keys tr = {k. KeyDown k \<in> set tr}"

section \<open>Binding router\<close>

definition actions :: "string list" where
  "actions = [''toggle_all'', ''stall'', ''speedflip'', ''straightdash'', ''turningdash'',
              ''emergency'', ''exit'']"

text \<open>
  The loop over \<open>actions.items()\<close> in \<open>_maybe_trigger_kb\<close>. The result lists the actions
  for which a thread has been started.
\<close>

fun scan_kb :: "engine \<Rightarrow> string \<Rightarrow> string list \<Rightarrow> error + string list" where
  "scan_kb eng name [] = Inr []"
| "scan_kb eng name (action # rest) =
     (case parse_hotkey (get_hotkey (state eng) action []) of
        Inl e \<Rightarrow> Inl e
      | Inr (kind, mods_req, key_req) \<Rightarrow>
          if kind \<noteq> ''kb'' \<or> key_req = [] then scan_kb eng name rest
          else if upper name \<noteq> upper key_req then scan_kb eng name rest
          else if \<not> mods_req \<subseteq> kb_mods eng then scan_kb eng name rest
          else if action \<notin> {''toggle_all'', ''emergency'', ''exit''} \<and> \<not> get_global (state eng)
            then Inr []
          else if action \<in> {''straightdash'', ''turningdash''} \<and> get_running eng action
            then Inr []
          else Inr [action])"

definition maybe_trigger_kb :: "engine \<Rightarrow> string \<Rightarrow> error + string list" where
  "maybe_trigger_kb eng name = (if capture_mode eng then Inr [] else scan_kb eng name actions)"

fun scan_gp :: "engine \<Rightarrow> string \<Rightarrow> string list \<Rightarrow> error + string list" where
  "scan_gp eng tok [] = Inr []"
| "scan_gp eng tok (action # rest) =
     (case parse_hotkey (get_hotkey (state eng) action []) of
        Inl e \<Rightarrow> Inl e
      | Inr (kind, mods_req, btn) \<Rightarrow>
          if kind \<noteq> ''gp'' \<or> btn = [] then scan_gp eng tok rest
          else if tok \<noteq> upper (''GP:'' @ btn) then scan_gp eng tok rest
          else if action \<notin> {''toggle_all'', ''emergency'', ''exit''} \<and> \<not> get_global (state eng)
            then Inr []
          else if action \<in> {''straightdash'', ''turningdash''} \<and> get_running eng action
            then Inr []
          else Inr [action])"

definition maybe_trigger_gp :: "engine \<Rightarrow> string \<Rightarrow> error + string list" where
  "maybe_trigger_gp eng tok = (if capture_mode eng then Inr [] else scan_gp eng tok actions)"

text \<open>\<open>on_gamepad_press\<close>: the new engine state and the threads started.\<close>

definition on_gamepad_press :: "engine \<Rightarrow> string \<Rightarrow> error + engine \<times> string list" where
  "on_gamepad_press eng tok0 =
     (if kill eng then Inr (eng, [])
      else (let tok = upper tok0; eng' = eng\<lparr>gp_pressed := insert tok (gp_pressed eng)\<rparr>
            in case maybe_trigger_gp eng' tok of Inl e \<Rightarrow> Inl e | Inr ds \<Rightarrow> Inr (eng', ds)))"

definition on_gamepad_release :: "engine \<Rightarrow> string \<Rightarrow> engine" where
  "on_gamepad_release eng tok = eng\<lparr>gp_pressed := gp_pressed eng - {upper tok}\<rparr>"

text \<open>
  \<open>_update_kb_mods\<close> and \<open>_on_press\<close>. The key name is the result of \<open>_key_name\<close>. The
  third component of the result is \<open>False\<close> where the callback returns \<open>False\<close>.
\<close>

fun contains :: "string \<Rightarrow> string \<Rightarrow> bool" where
  "contains [] p = (p = [])"
| "contains (c # cs) p = (startswith (c # cs) p \<or> contains cs p)"

definition update_kb_mods :: "string set \<Rightarrow> string \<Rightarrow> bool \<Rightarrow> string set" where
  "update_kb_mods mods name down =
     (let n = upper name;
          hit = (if contains n ''CTRL'' \<or> contains n ''CONTROL'' then {''CTRL''} else {})
              \<union> (if contains n ''ALT'' then {''ALT''} else {})
              \<union> (if contains n ''SHIFT'' then {''SHIFT''} else {})
              \<union> (if contains n ''WIN'' \<or> contains n ''SUPER'' \<or> contains n ''META'' \<or> contains n ''CMD''
                  then {''WIN''} else {})
      in if down then mods \<union> hit else mods - hit)"

definition MOD_NAMES :: "string set" where
  "MOD_NAMES = {''CTRL'', ''ALT'', ''SHIFT'', ''WIN''}"

definition on_press :: "engine \<Rightarrow> string \<Rightarrow> error + engine \<times> string list \<times> bool" where
  "on_press eng name =
     (if kill eng then Inr (eng, [], False)
      else if name = [] then Inr (eng, [], True)
      else (let eng1 = eng\<lparr>kb_mods := update_kb_mods (kb_mods eng) name True\<rparr>;
                eng2 = (if name \<notin> MOD_NAMES then eng1\<lparr>kb_pressed := insert name (kb_pressed eng1)\<rparr>
                        else eng1)
            in case maybe_trigger_kb eng2 name of
                 Inl e \<Rightarrow> Inl e
               | Inr ds \<Rightarrow> Inr (eng2, ds, True)))"

section \<open>Macro executor\<close>

definition release_all_outputs :: "effect list" where
  "release_all_outputs =
     map KeyUp [''W'', ''A'', ''S'', ''D'', ''Q'', ''E'', ''I'', ''LShift''] @ [MouseRight False]"

definition act_toggle_all :: "engine \<Rightarrow> effect list \<times> error option" where
  "act_toggle_all eng =
     (let on = \<not> get_global (state eng) in ([SetGlobal on, Beep on], None))"

definition act_exit :: "effect list \<times> error option" where
  "act_exit = ([SetKill True] @ release_all_outputs @ [ProcessExit], None)"

definition act_emergency :: "effect list \<times> error option" where
  "act_emergency =
     ([SetKill True] @ release_all_outputs @ [Beep False, Sleep 150, SetKill False], None)"

definition act_stall :: "engine \<Rightarrow> effect list \<times> error option" where
  "act_stall eng =
     (if \<not> get_global (state eng) then ([], None)
      else if \<not> get_feature (state eng) ''stall'' then ([], None)
      else (case get_timing (state eng) ''stall_click_ms'' of
              Inl e \<Rightarrow> ([], Some e)
            | Inr t \<Rightarrow>
                perform [KeyDown ''Q'', KeyDown ''D'', MouseRight True, Sleep (max 0 t),
                         MouseRight False, KeyUp ''D'', KeyUp ''Q'']))"

record sf_params =
  a_hold :: int
  wait_before :: int
  s_dur :: int
  d_dur :: int
  airroll :: int
  shift_start :: int
  shift_dur :: int
  prejump :: int
  click_down :: int
  between_jumps :: int
  post_shift :: int

definition and_then :: "error + 'a \<Rightarrow> ('a \<Rightarrow> error + 'b) \<Rightarrow> error + 'b" where
  "and_then r f = (case r of Inl e \<Rightarrow> Inl e | Inr v \<Rightarrow> f v)"

text \<open>The eleven subscripts \<open>tm["..."]\<close> at the head of \<open>_act_speedflip\<close>.\<close>

definition sf_read :: "config \<Rightarrow> error + sf_params" where
  "sf_read c =
     and_then (get_timing c ''sf_a_hold_ms'') (\<lambda>v1.
     and_then (get_timing c ''sf_wait_before_jump_ms'') (\<lambda>v2.
     and_then (get_timing c ''sf_s_hold_ms'') (\<lambda>v3.
     and_then (get_timing c ''sf_d_hold_ms'') (\<lambda>v4.
     and_then (get_timing c ''sf_airroll_time_ms'') (\<lambda>v5.
     and_then (get_timing c ''sf_shift_start_ms'') (\<lambda>v6.
     and_then (get_timing c ''sf_shift_duration_ms'') (\<lambda>v7.
     and_then (get_timing c ''sf_prejump_ms'') (\<lambda>v8.
     and_then (get_timing c ''sf_click_down_ms'') (\<lambda>v9.
     and_then (get_timing c ''sf_between_jumps_ms'') (\<lambda>v10.
     and_then (get_timing c ''sf_post_shift_ms'') (\<lambda>v11.
       Inr \<lparr>a_hold = v1, wait_before = v2, s_dur = v3, d_dur = v4, airroll = v5,
            shift_start = v6, shift_dur = v7, prejump = v8, click_down = v9,
            between_jumps = v10, post_shift = v11\<rparr>)))))))))))"

text \<open>The body of \<open>_act_speedflip\<close> after the parameters are read.\<close>

definition speedflip_steps :: "sf_params \<Rightarrow> effect list" where
  "speedflip_steps p =
     [KeyDown ''I'', KeyDown ''A'', Sleep (a_hold p), KeyUp ''A'', Sleep (wait_before p)]
     @ map KeyUp [''W'', ''S'', ''E'', ''Q'']
     @ [KeyDown ''E'', KeyDown ''W'', Sleep (prejump p)]
     @ [MouseRight True, Sleep (click_down p), MouseRight False, Sleep (between_jumps p),
        MouseRight True, Sleep (click_down p), MouseRight False]
     @ [KeyUp ''W'', KeyDown ''S'', KeyDown ''D'']
     @ (if s_dur p < d_dur p
        then [Sleep (s_dur p), KeyUp ''S'', KeyDown ''W'', Sleep (d_dur p - s_dur p), KeyUp ''D'']
        else [Sleep (d_dur p), KeyUp ''D'', Sleep (s_dur p - d_dur p), KeyUp ''S'', KeyDown ''W''])
     @ (let max_hold = max (s_dur p) (d_dur p);
            time_until_e = airroll p - max_hold;
            time_until_shift = shift_start p - max (airroll p) max_hold
        in (if time_until_e > 0 then [Sleep time_until_e] else [])
           @ [KeyUp ''E'']
           @ (if time_until_shift > 0 then [Sleep time_until_shift] else [])
           @ [KeyDown ''LShift'', Sleep (shift_dur p), KeyUp ''LShift'', Sleep (post_shift p),
              KeyUp ''I''])"

definition act_speedflip :: "engine \<Rightarrow> effect list \<times> error option" where
  "act_speedflip eng =
     (if \<not> get_global (state eng) then ([], None)
      else if \<not> get_feature (state eng) ''speedflip'' then ([], None)
      else (case sf_read (state eng) of
              Inl e \<Rightarrow> ([], Some e)
            | Inr p \<Rightarrow> perform (speedflip_steps p)))"

definition hold_active :: "engine \<Rightarrow> string \<Rightarrow> string \<Rightarrow> bool" where
  "hold_active eng kind key_or_btn =
     (if kind = ''kb'' then upper key_or_btn \<in> kb_pressed eng
      else upper (''GP:'' @ key_or_btn) \<in> gp_pressed eng)"

text \<open>
  The \<open>while\<close> loop shared by the two hold actions. The other threads change the engine
  state while the loop runs: the list holds the engine state as each iteration reads it.
  \<open>None\<close> means that the loop is still running when the list ends.
\<close>

fun hold_loop ::
  "string \<Rightarrow> effect list \<Rightarrow> string \<Rightarrow> string \<Rightarrow> engine list \<Rightarrow> (effect list \<times> error option) option"
where
  "hold_loop feature cycle kind key_req [] = None"
| "hold_loop feature cycle kind key_req (e # es) =
     (if kill e \<or> \<not> hold_active e kind key_req then Some ([], None)
      else if \<not> get_global (state e) \<or> \<not> get_feature (state e) feature then Some ([], None)
      else (case perform cycle of
              (tr, Some err) \<Rightarrow> Some (tr, Some err)
            | (tr, None) \<Rightarrow>
                (case hold_loop feature cycle kind key_req es of
                   None \<Rightarrow> None
                 | Some (tr', r) \<Rightarrow> Some (tr @ tr', r))))"

definition straightdash_cycle :: "int \<Rightarrow> int \<Rightarrow> effect list" where
  "straightdash_cycle down_ms gap_ms =
     [KeyDown ''W'', KeyDown ''Q'',
      MouseRight True, Sleep down_ms, MouseRight False, Sleep gap_ms,
      MouseRight True, Sleep down_ms, MouseRight False, Sleep 1]"

text \<open>The \<open>try\<close> block of \<open>_act_straightdash_hold\<close>.\<close>

definition straightdash_body :: "engine \<Rightarrow> engine list \<Rightarrow> (effect list \<times> error option) option" where
  "straightdash_body eng snaps =
     (case parse_hotkey (get_hotkey (state eng) ''straightdash'' ''V'') of
        Inl e \<Rightarrow> Some ([], Some e)
      | Inr (kind, mods_req, key_req) \<Rightarrow>
          (case get_timing (state eng) ''sd_click_down_ms'' of
             Inl e \<Rightarrow> Some ([], Some e)
           | Inr down_ms \<Rightarrow>
               (case get_timing (state eng) ''sd_between_clicks_ms'' of
                  Inl e \<Rightarrow> Some ([], Some e)
                | Inr gap_ms \<Rightarrow>
                    hold_loop ''straightdash'' (straightdash_cycle down_ms gap_ms) kind key_req snaps)))"

text \<open>The whole action: the registry write, the \<open>try\<close> block, the \<open>finally\<close> block.\<close>

definition act_straightdash_hold ::
  "engine \<Rightarrow> engine list \<Rightarrow> (effect list \<times> error option) option" where
  "act_straightdash_hold eng snaps =
     (case straightdash_body eng snaps of
        None \<Rightarrow> None
      | Some (tr, r) \<Rightarrow>
          Some ([SetRunning ''straightdash'' True] @ tr
                @ [KeyUp ''Q'', KeyUp ''W'', SetRunning ''straightdash'' False], r))"

definition turningdash_cycle :: "int \<Rightarrow> int \<Rightarrow> int \<Rightarrow> effect list" where
  "turningdash_cycle pre_ms down_ms gap_ms =
     [KeyDown ''W'', KeyDown ''Q'', KeyDown ''D'', Sleep pre_ms,
      KeyUp ''D'', KeyDown ''A'',
      MouseRight True, Sleep down_ms, MouseRight False, Sleep gap_ms,
      MouseRight True, Sleep down_ms, MouseRight False,
      KeyUp ''A'', Sleep 1]"

definition turningdash_body :: "engine \<Rightarrow> engine list \<Rightarrow> (effect list \<times> error option) option" where
  "turningdash_body eng snaps =
     (case parse_hotkey (get_hotkey (state eng) ''turningdash'' ''N'') of
        Inl e \<Rightarrow> Some ([], Some e)
      | Inr (kind, mods_req, key_req) \<Rightarrow>
          (case get_timing (state eng) ''td_pre_ms'' of
             Inl e \<Rightarrow> Some ([], Some e)
           | Inr pre_ms \<Rightarrow>
               (case get_timing (state eng) ''td_click_down_ms'' of
                  Inl e \<Rightarrow> Some ([], Some e)
                | Inr down_ms \<Rightarrow>
                    (case get_timing (state eng) ''td_between_clicks_ms'' of
                       Inl e \<Rightarrow> Some ([], Some e)
                     | Inr gap_ms \<Rightarrow>
                         hold_loop ''turningdash'' (turningdash_cycle pre_ms down_ms gap_ms)
                           kind key_req snaps))))"

definition act_turningdash_hold ::
  "engine \<Rightarrow> engine list \<Rightarrow> (effect list \<times> error option) option" where
  "act_turningdash_hold eng snaps =
     (case turningdash_body eng snaps of
        None \<Rightarrow> None
      | Some (tr, r) \<Rightarrow>
          Some ([SetRunning ''turningdash'' True] @ tr
                @ map KeyUp [''A'', ''D'', ''Q'', ''W'']
                @ [SetRunning ''turningdash'' False], r))"

section \<open>Reading a trace\<close>



text \<open>The calls that follow the first occurrence of \<open>e\<close>.\<close>

definition after_first :: "effect \<Rightarrow> effect list \<Rightarrow> effect list" where
  "after_first e tr = drop 1 (dropWhile (\<lambda>x. x \<noteq> e) tr)"

section \<open>Default configuration and a fresh engine\<close>

definition DEFAULTS :: config where
  "DEFAULTS =
     \<lparr>global_enabled = Some True,
      features = map_of [(''stall'', True), (''speedflip'', True), (''straightdash'', True),
                         (''turningdash'', True)],
      hotkeys = map_of [(''toggle_all'', ''F6''), (''stall'', ''F''), (''speedflip'', ''H''),
                        (''straightdash'', ''V''), (''turningdash'', ''N''), (''emergency'', ''L''),
                        (''exit'', ''F10'')],
      timings = map_of [(''stall_click_ms'', 3), (''sf_a_hold_ms'', 80),
                        (''sf_wait_before_jump_ms'', 20), (''sf_s_hold_ms'', 690),
                        (''sf_d_hold_ms'', 720), (''sf_airroll_time_ms'', 799),
                        (''sf_shift_start_ms'', 840), (''sf_shift_duration_ms'', 130),
                        (''sf_prejump_ms'', 20), (''sf_click_down_ms'', 20),
                        (''sf_between_jumps_ms'', 40), (''sf_post_shift_ms'', 50),
                        (''sd_click_down_ms'', 15), (''sd_between_clicks_ms'', 25),
                        (''td_pre_ms'', 10), (''td_click_down_ms'', 15),
                        (''td_between_clicks_ms'', 25)]\<rparr>"

text \<open>\<open>MacroEngine.__init__\<close>.\<close>

definition MacroEngine :: "config \<Rightarrow> engine" where
  "MacroEngine st =
     \<lparr>state = st, kb_pressed = {}, kb_mods = {}, gp_pressed = {}, kill = False,
      running_hold = map_of [(''straightdash'', False), (''turningdash'', False)],
      capture_mode = False\<rparr>"

section \<open>Notions used to state the properties\<close>

text \<open>The round trip through \<open>format_hotkey\<close> at the trigger parsed from \<open>s\<close>.\<close>

definition round_trips :: "string \<Rightarrow> bool" where
  "round_trips s =
     (case parse_hotkey s of
        Inl e \<Rightarrow> False
      | Inr (kind, mods, key) \<Rightarrow> parse_hotkey (format_hotkey mods key) = Inr (kind, mods, key))"

text \<open>The modifier a token names, by the words of the grammar.\<close>

definition modifier_of :: "string \<Rightarrow> string option" where
  "modifier_of p =
     (if p = ''CONTROL'' \<or> p = ''CTRL'' then Some ''CTRL''
      else if p = ''ALT'' then Some ''ALT''
      else if p = ''SHIFT'' then Some ''SHIFT''
      else if p = ''WIN'' \<or> p = ''WINDOWS'' \<or> p = ''SUPER'' \<or> p = ''META'' then Some ''WIN''
      else None)"

text \<open>The modifiers named by a list of tokens.\<close>

definition named_modifiers :: "string list \<Rightarrow> string set" where
  "named_modifiers ps = set (List.map_filter modifier_of ps)"

text \<open>An action's stored trigger matches a keyboard key name, or a controller token.\<close>

definition kb_matches :: "engine \<Rightarrow> string \<Rightarrow> string \<Rightarrow> bool" where
  "kb_matches eng name action =
     (case parse_hotkey (get_hotkey (state eng) action []) of
        Inl e \<Rightarrow> False
      | Inr (kind, mods_req, key_req) \<Rightarrow>
          kind = ''kb'' \<and> key_req \<noteq> [] \<and> upper name = upper key_req \<and> mods_req \<subseteq> kb_mods eng)"

definition gp_matches :: "engine \<Rightarrow> string \<Rightarrow> string \<Rightarrow> bool" where
  "gp_matches eng tok action =
     (case parse_hotkey (get_hotkey (state eng) action []) of
        Inl e \<Rightarrow> False
      | Inr (kind, mods_req, btn) \<Rightarrow> kind = ''gp'' \<and> btn \<noteq> [] \<and> tok = upper (''GP:'' @ btn))"

text \<open>The two checks of the router before it starts an action.\<close>

definition gated :: "engine \<Rightarrow> string \<Rightarrow> bool" where
  "gated eng action =
     ((action \<notin> {''toggle_all'', ''emergency'', ''exit''} \<and> \<not> get_global (state eng))
      \<or> (action \<in> {''straightdash'', ''turningdash''} \<and> get_running eng action))"

text \<open>
  What the router is to start: the first matching action, unless the global flag or the
  re-entrancy guard holds it back.
\<close>

definition first_match_dispatch :: "(string \<Rightarrow> bool) \<Rightarrow> engine \<Rightarrow> string list" where
  "first_match_dispatch matches eng =
     (case find matches actions of
        None \<Rightarrow> []
      | Some a \<Rightarrow> if gated eng a then [] else [a])"

text \<open>\<open>a\<close> is declared before \<open>b\<close> in the list.\<close>

definition precedes :: "string \<Rightarrow> string \<Rightarrow> string list \<Rightarrow> bool" where
  "precedes a b xs = (b \<in> set xs \<and> a \<in> set (takeWhile (\<lambda>x. x \<noteq> b) xs))"

text \<open>
  Press tokens delivered one after the other, with no other thread acting in between:
  the final engine state and all the threads started. The keyboard listener of pynput
  stops when its callback returns \<open>False\<close>: the key presses after that are not delivered.
\<close>

fun press_all_gp :: "engine \<Rightarrow> string list \<Rightarrow> error + engine \<times> string list" where
  "press_all_gp eng [] = Inr (eng, [])"
| "press_all_gp eng (t # ts) =
     (case on_gamepad_press eng t of
        Inl e \<Rightarrow> Inl e
      | Inr (eng', ds) \<Rightarrow>
          (case press_all_gp eng' ts of
             Inl e \<Rightarrow> Inl e
           | Inr (eng'', ds') \<Rightarrow> Inr (eng'', ds @ ds')))"

fun press_all_kb :: "engine \<Rightarrow> string list \<Rightarrow> error + engine \<times> string list" where
  "press_all_kb eng [] = Inr (eng, [])"
| "press_all_kb eng (t # ts) =
     (case on_press eng t of
        Inl e \<Rightarrow> Inl e
      | Inr (eng', ds, listening) \<Rightarrow>
          if \<not> listening then Inr (eng', ds)
          else (case press_all_kb eng' ts of
                  Inl e \<Rightarrow> Inl e
                | Inr (eng'', ds') \<Rightarrow> Inr (eng'', ds @ ds')))"

text \<open>
  What reaches the engine, in the order it arrives: a key-down seen by the keyboard
  listener, a press token from a controller backend, and the effects of a running macro on
  the shared state. The engine is paired with the state of the keyboard listener: pynput
  calls \<open>_on_press\<close> while the listener runs and stops it when the callback returns
  \<open>False\<close>; \<open>start_keyboard_listener\<close> is called once, at start-up, and returns at once
  while \<open>self._listener\<close> is set, so a stopped listener is not started again. The
  controller backends call \<open>on_gamepad_press\<close> whatever it returns.
\<close>

datatype event = KeyPress string | PadPress string | MacroEffects "effect list"

fun deliver :: "engine \<times> bool \<Rightarrow> event \<Rightarrow> error + (engine \<times> bool) \<times> string list" where
  "deliver (eng, running) (KeyPress name) =
     (if \<not> running then Inr ((eng, False), [])
      else (case on_press eng name of
              Inl e \<Rightarrow> Inl e
            | Inr (eng', ds, keep) \<Rightarrow> Inr ((eng', keep), ds)))"
| "deliver (eng, running) (PadPress tok) =
     (case on_gamepad_press eng tok of
        Inl e \<Rightarrow> Inl e
      | Inr (eng', ds) \<Rightarrow> Inr ((eng', running), ds))"
| "deliver (eng, running) (MacroEffects tr) = Inr ((run_effects tr eng, running), [])"

fun deliver_all ::
  "engine \<times> bool \<Rightarrow> event list \<Rightarrow> error + (engine \<times> bool) \<times> string list" where
  "deliver_all st [] = Inr (st, [])"
| "deliver_all st (ev # evs) =
     (case deliver st ev of
        Inl e \<Rightarrow> Inl e
      | Inr (st', ds) \<Rightarrow>
          (case deliver_all st' evs of
             Inl e \<Rightarrow> Inl e
           | Inr (st'', ds') \<Rightarrow> Inr (st'', ds @ ds')))"

text \<open>
  The calls of \<open>_act_emergency\<close> while the kill flag is set and before the beep, and the
  rest: the beep of 140 ms, the sleep of 150 ms and the write that clears the flag.
\<close>

definition emergency_sweep :: "effect list" where
  "emergency_sweep = take 10 (fst act_emergency)"

definition emergency_rest :: "effect list" where
  "emergency_rest = drop 10 (fst act_emergency)"

text \<open>The calls that reach the synthetic input sink.\<close>

fun is_output :: "effect \<Rightarrow> bool" where
  "is_output (KeyDown k) = True"
| "is_output (KeyUp k) = True"
| "is_output (MouseRight b) = True"
| "is_output _ = False"

text \<open>A trace without any call to the synthetic input sink.\<close>

definition silent :: "effect list \<Rightarrow> bool" where
  "silent tr = list_all (\<lambda>e. \<not> is_output e) tr"

text \<open>The keys released by \<open>_release_all_outputs\<close>.\<close>

definition all_keys :: "string list" where
  "all_keys = [''W'', ''A'', ''S'', ''D'', ''Q'', ''E'', ''I'', ''LShift'']"

section \<open>Example configurations\<close>

text \<open>Two actions misconfigured to share one trigger, on the keyboard and on a controller.\<close>

definition shared_kb :: engine where
  "shared_kb = MacroEngine (DEFAULTS\<lparr>hotkeys := (hotkeys DEFAULTS)(''stall'' \<mapsto> ''H'')\<rparr>)"

definition shared_gp :: engine where
  "shared_gp = MacroEngine (DEFAULTS\<lparr>hotkeys :=
       (hotkeys DEFAULTS)(''stall'' \<mapsto> ''GP:A'', ''speedflip'' \<mapsto> ''gp:a'')\<rparr>)"

text \<open>A hold loop is running: its registry entry is set.\<close>

definition holding_kb :: engine where
  "holding_kb = apply_effect (SetRunning ''straightdash'' True) (MacroEngine DEFAULTS)"

definition holding_gp :: engine where
  "holding_gp = apply_effect (SetRunning ''turningdash'' True)
     (MacroEngine (DEFAULTS\<lparr>hotkeys := (hotkeys DEFAULTS)(''turningdash'' \<mapsto> ''GP:LB'')\<rparr>))"

text \<open>Straight dash and stall bound to controller buttons, as a pad reported by two backends.\<close>

definition pad_bindings :: engine where
  "pad_bindings = MacroEngine (DEFAULTS\<lparr>hotkeys :=
       (hotkeys DEFAULTS)(''straightdash'' \<mapsto> ''GP:A'', ''stall'' \<mapsto> ''GP:B'')\<rparr>)"

text \<open>A binding of one no-break space.\<close>

definition nbsp_binding :: engine where
  "nbsp_binding = MacroEngine (DEFAULTS\<lparr>hotkeys := (hotkeys DEFAULTS)(''stall'' \<mapsto> [CHR 0xA0])\<rparr>)"

text \<open>Bindings that parse to an empty symbol.\<close>

definition blank_binding :: engine where
  "blank_binding = MacroEngine (DEFAULTS\<lparr>hotkeys :=
       (hotkeys DEFAULTS)(''stall'' \<mapsto> ''  '', ''speedflip'' \<mapsto> ''GP:'', ''emergency'' \<mapsto> ''+'')\<rparr>)"

text \<open>
  What a hold loop reads when the trigger is released after one cycle, and a configuration
  in which a sleep of the cycle raises.
\<close>

definition released_after_one :: "engine list" where
  "released_after_one = [(MacroEngine DEFAULTS)\<lparr>kb_pressed := {''V''}\<rparr>, MacroEngine DEFAULTS]"

definition negative_click :: engine where
  "negative_click = MacroEngine (DEFAULTS\<lparr>timings := (timings DEFAULTS)(''td_click_down_ms'' \<mapsto> - 5)\<rparr>)"

text \<open>A binding made of modifier names only, with Ctrl held down.\<close>

definition modifier_binding :: engine where
  "modifier_binding =
     (MacroEngine (DEFAULTS\<lparr>hotkeys := (hotkeys DEFAULTS)(''stall'' \<mapsto> ''Ctrl+Shift'')\<rparr>))
       \<lparr>kb_mods := {''CTRL''}\<rparr>"

text \<open>The global-enable flag is off.\<close>

definition global_off :: engine where
  "global_off = MacroEngine (DEFAULTS\<lparr>global_enabled := Some False\<rparr>)"

text \<open>The straight-dash feature is switched off, the global flag is on.\<close>

definition feature_off :: engine where
  "feature_off = MacroEngine (DEFAULTS\<lparr>features := (features DEFAULTS)(''straightdash'' \<mapsto> False)\<rparr>)"

section \<open>Straight-line runs and reading traces\<close>

lemma perform_all_nonneg:
  "\<forall>n. Sleep n \<in> set es \<longrightarrow> 0 \<le> n \<Longrightarrow> perform es = (es, None)"
  by (induction es rule: perform.induct) auto

lemma perform_append:
  "perform (xs @ ys) =
     (case perform xs of
        (tr, Some e) \<Rightarrow> (tr, Some e)
      | (tr, None) \<Rightarrow> (tr @ fst (perform ys), snd (perform ys)))"
  by (induction xs rule: perform.induct) (auto split: prod.splits option.splits)

lemma perform_subset: "set (fst (perform es)) \<subseteq> set es"
  by (induction es rule: perform.induct) (auto split: prod.splits)








lemma speedflip_trace:
  assumes en: "get_global (state eng)" "get_feature (state eng) ''speedflip''"
    and rd: "sf_read (state eng) = Inr p"
    and nn: "0 \<le> a_hold p" "0 \<le> wait_before p" "0 \<le> prejump p" "0 \<le> click_down p"
            "0 \<le> between_jumps p" "0 \<le> s_dur p" "0 \<le> d_dur p"
  shows "fst (act_speedflip eng) =
     ([KeyDown ''I'', KeyDown ''A'', Sleep (a_hold p), KeyUp ''A'', Sleep (wait_before p),
       KeyUp ''W'', KeyUp ''S'', KeyUp ''E'', KeyUp ''Q'',
       KeyDown ''E'', KeyDown ''W'', Sleep (prejump p),
       MouseRight True, Sleep (click_down p), MouseRight False, Sleep (between_jumps p),
       MouseRight True, Sleep (click_down p), MouseRight False,
       KeyUp ''W'', KeyDown ''S'', KeyDown ''D'']
      @ (if s_dur p < d_dur p
         then [Sleep (s_dur p), KeyUp ''S'', KeyDown ''W'', Sleep (d_dur p - s_dur p), KeyUp ''D'']
         else [Sleep (d_dur p), KeyUp ''D'', Sleep (s_dur p - d_dur p), KeyUp ''S'', KeyDown ''W'']))
      @ map Sleep (if airroll p - max (s_dur p) (d_dur p) > 0
                   then [airroll p - max (s_dur p) (d_dur p)] else [])
      @ KeyUp ''E''
      # map Sleep (if shift_start p - max (airroll p) (max (s_dur p) (d_dur p)) > 0
                   then [shift_start p - max (airroll p) (max (s_dur p) (d_dur p))] else [])
      @ KeyDown ''LShift''
      # fst (perform [Sleep (shift_dur p), KeyUp ''LShift'', Sleep (post_shift p), KeyUp ''I''])"
    (is "_ = ?A @ ?W1 @ KeyUp ''E'' # ?W2 @ KeyDown ''LShift'' # ?T")
proof -
  let ?H = "?A @ ?W1 @ KeyUp ''E'' # ?W2 @ [KeyDown ''LShift'']"
  let ?R = "[Sleep (shift_dur p), KeyUp ''LShift'', Sleep (post_shift p), KeyUp ''I'']"
  have steps: "speedflip_steps p = ?H @ ?R"
    by (simp add: speedflip_steps_def Let_def)
  have "\<forall>n. Sleep n \<in> set ?H \<longrightarrow> 0 \<le> n"
    using nn by auto
  then have "perform ?H = (?H, None)"
    by (rule perform_all_nonneg)
  then have "fst (perform (?H @ ?R)) = ?H @ fst (perform ?R)"
    by (simp only: perform_append prod.case option.case fst_conv)
  with en rd steps show ?thesis
    by (simp add: act_speedflip_def)
qed





lemma state_MacroEngine: "state (MacroEngine c) = c"
  by (simp add: MacroEngine_def)


lemma defaults_read_s_hold:
  "sf_read (DEFAULTS\<lparr>timings := (timings DEFAULTS)(''sf_s_hold_ms'' \<mapsto> v)\<rparr>) =
     Inr \<lparr>a_hold = 80, wait_before = 20, s_dur = v, d_dur = 720, airroll = 799,
          shift_start = 840, shift_dur = 130, prejump = 20, click_down = 20,
          between_jumps = 40, post_shift = 50\<rparr>"
  by (simp add: sf_read_def and_then_def get_timing_def DEFAULTS_def)

lemma defaults_enabled:
  "get_global (DEFAULTS\<lparr>timings := t\<rparr>)" "get_feature (DEFAULTS\<lparr>timings := t\<rparr>) ''speedflip''"
  by (simp_all add: get_global_def get_feature_def DEFAULTS_def)


text \<open>
  C7. In SpeedFlip, with the feature enabled and non-negative durations, S and D go down
  together; if \<open>s_dur < d_dur\<close> then S is released first after \<open>s_dur\<close>, W goes down, and
  D is released after the remaining \<open>d_dur - s_dur\<close>; otherwise D is released first after
  \<open>d_dur\<close> and S after the remaining \<open>s_dur - d_dur\<close>, followed by W going down.
\<close>

theorem speedflip_release_order:
  assumes "get_global (state eng)" "get_feature (state eng) ''speedflip''"
    and "sf_read (state eng) = Inr p"
    and "0 \<le> a_hold p" "0 \<le> wait_before p" "0 \<le> prejump p" "0 \<le> click_down p"
        "0 \<le> between_jumps p" "0 \<le> s_dur p" "0 \<le> d_dur p"
  shows "take 5 (after_first (KeyDown ''D'') (fst (act_speedflip eng))) =
     (if s_dur p < d_dur p
      then [Sleep (s_dur p), KeyUp ''S'', KeyDown ''W'', Sleep (d_dur p - s_dur p), KeyUp ''D'']
      else [Sleep (d_dur p), KeyUp ''D'', Sleep (s_dur p - d_dur p), KeyUp ''S'', KeyDown ''W''])"
  unfolding speedflip_trace [OF assms] by (simp add: after_first_def)

theorem speedflip_release_order_witness:
  "take 5 (after_first (KeyDown ''D'')
     (fst (act_speedflip (MacroEngine
        (DEFAULTS\<lparr>timings := (timings DEFAULTS)(''sf_s_hold_ms'' \<mapsto> 690)\<rparr>)))))
     = [Sleep 690, KeyUp ''S'', KeyDown ''W'', Sleep 30, KeyUp ''D'']
   \<and> take 5 (after_first (KeyDown ''D'')
     (fst (act_speedflip (MacroEngine
        (DEFAULTS\<lparr>timings := (timings DEFAULTS)(''sf_s_hold_ms'' \<mapsto> 800)\<rparr>)))))
     = [Sleep 720, KeyUp ''D'', Sleep 80, KeyUp ''S'', KeyDown ''W'']"
proof -
  let ?c = "\<lambda>v. DEFAULTS\<lparr>timings := (timings DEFAULTS)(''sf_s_hold_ms'' \<mapsto> v)\<rparr>"
  have en: "get_global (state (MacroEngine (?c v)))"
           "get_feature (state (MacroEngine (?c v))) ''speedflip''" for v
    unfolding state_MacroEngine by (rule defaults_enabled)+
  have rd: "sf_read (state (MacroEngine (?c v))) =
     Inr \<lparr>a_hold = 80, wait_before = 20, s_dur = v, d_dur = 720, airroll = 799,
          shift_start = 840, shift_dur = 130, prejump = 20, click_down = 20,
          between_jumps = 40, post_shift = 50\<rparr>" for v
    unfolding state_MacroEngine by (rule defaults_read_s_hold)
  note a = speedflip_release_order [OF en rd, of 690]
  note b = speedflip_release_order [OF en rd, of 800]
  have "take 5 (after_first (KeyDown ''D'') (fst (act_speedflip (MacroEngine (?c 690)))))
          = [Sleep 690, KeyUp ''S'', KeyDown ''W'', Sleep 30, KeyUp ''D'']"
    using a by simp
  moreover have "take 5 (after_first (KeyDown ''D'') (fst (act_speedflip (MacroEngine (?c 800)))))
          = [Sleep 720, KeyUp ''D'', Sleep 80, KeyUp ''S'', KeyDown ''W'']"
    using b by simp
  ultimately show ?thesis by blast
qed

section \<open>Hold loops: effects, termination, cleanup\<close>

lemma hold_loop_effects:
  "hold_loop f cycle kind key snaps = Some (tr, r) \<Longrightarrow> set tr \<subseteq> set cycle"
proof (induction snaps arbitrary: tr r)
  case Nil
  then show ?case by simp
next
  case (Cons e es)
  have sub: "set (fst (perform cycle)) \<subseteq> set cycle" by (rule perform_subset)
  from Cons.prems Cons.IH sub show ?case
    by (auto split: if_splits prod.splits option.splits)
qed

lemma hold_loop_terminates:
  assumes "\<exists>e \<in> set snaps. kill e \<or> \<not> hold_active e kind key
        \<or> \<not> get_global (state e) \<or> \<not> get_feature (state e) f"
  shows "\<exists>res. hold_loop f cycle kind key snaps = Some res"
  using assms
proof (induction snaps)
  case Nil
  then show ?case by simp
next
  case (Cons a snaps)
  show ?case
  proof (cases "kill a \<or> \<not> hold_active a kind key
        \<or> \<not> get_global (state a) \<or> \<not> get_feature (state a) f")
    case True
    then show ?thesis by auto
  next
    case False
    with Cons.prems have "\<exists>e \<in> set snaps. kill e \<or> \<not> hold_active e kind key
        \<or> \<not> get_global (state e) \<or> \<not> get_feature (state e) f"
      by auto
    from Cons.IH [OF this] obtain res where "hold_loop f cycle kind key snaps = Some res"
      by blast
    with False show ?thesis
      by (cases res) (simp split: prod.splits option.splits)
  qed
qed

lemma held_after_append: "held_after (xs @ ys) h = held_after ys (held_after xs h)"
  by (simp add: held_after_def)

lemma held_after_ups: "held_after (map KeyUp ks) h = h - set ks"
  by (induction ks arbitrary: h) (auto simp: held_after_def)

lemma run_effects_append: "run_effects (xs @ ys) eng = run_effects ys (run_effects xs eng)"
  by (simp add: run_effects_def)

lemma pressed_keys_append: "pressed_keys (xs @ ys) = pressed_keys xs \<union> pressed_keys ys"
  by (auto simp: pressed_keys_def)

lemma pressed_keys_mono: "set xs \<subseteq> set ys \<Longrightarrow> pressed_keys xs \<subseteq> pressed_keys ys"
  by (auto simp: pressed_keys_def)

lemma straightdash_body_keys:
  "straightdash_body eng snaps = Some (tr, r) \<Longrightarrow> pressed_keys tr \<subseteq> {''W'', ''Q''}"
proof -
  assume a: "straightdash_body eng snaps = Some (tr, r)"
  have "tr = [] \<or> (\<exists>d g. set tr \<subseteq> set (straightdash_cycle d g))"
    using a by (auto simp: straightdash_body_def split: sum.splits prod.splits dest: hold_loop_effects)
  then show ?thesis
    by (auto simp: pressed_keys_def straightdash_cycle_def)
qed

lemma turningdash_body_keys:
  "turningdash_body eng snaps = Some (tr, r) \<Longrightarrow> pressed_keys tr \<subseteq> {''A'', ''D'', ''Q'', ''W''}"
proof -
  assume a: "turningdash_body eng snaps = Some (tr, r)"
  have "tr = [] \<or> (\<exists>p d g. set tr \<subseteq> set (turningdash_cycle p d g))"
    using a by (auto simp: turningdash_body_def split: sum.splits prod.splits dest: hold_loop_effects)
  then show ?thesis
    by (auto simp: pressed_keys_def turningdash_cycle_def)
qed

lemma cleanup_releases:
  assumes "pressed_keys body \<subseteq> set ks"
  shows "pressed_keys (SetRunning a True # body @ map KeyUp ks @ [SetRunning a False])
           \<inter> held_after (SetRunning a True # body @ map KeyUp ks @ [SetRunning a False]) h = {}"
proof -
  have "held_after (SetRunning a True # body @ map KeyUp ks @ [SetRunning a False]) h
        = held_after body h - set ks"
    using held_after_append [of "SetRunning a True # body" "map KeyUp ks @ [SetRunning a False]" h]
          held_after_append [of "map KeyUp ks" "[SetRunning a False]"]
    by (simp add: held_after_ups) (simp add: held_after_def)
  moreover have "pressed_keys (SetRunning a True # body @ map KeyUp ks @ [SetRunning a False])
        = pressed_keys body"
    by (auto simp: pressed_keys_def)
  ultimately show ?thesis using assms by auto
qed

lemma cleanup_registry:
  "running_hold (run_effects (xs @ [SetRunning a False]) e0) a = Some False"
  by (simp add: run_effects_append) (simp add: run_effects_def)

section \<open>The parser is total; the router picks the first match\<close>

lemma of_char_upper_char:
  "(of_char (upper_char c) :: nat) =
     (if 97 \<le> (of_char c :: nat) \<and> (of_char c :: nat) \<le> 122 then of_char c - 32 else of_char c)"
  by (auto simp: upper_char_def Let_def)

lemma char_eq_code: "c = d \<longleftrightarrow> (of_char c :: nat) = of_char d"
  by (metis of_char_eq_iff)

lemma upper_char_colon: "upper_char c = CHR '':'' \<Longrightarrow> c = CHR '':''"
  by (auto simp: char_eq_code [of _ "CHR '':''"] of_char_upper_char split: if_splits)

lemma set_strip: "set (strip s) \<subseteq> set s"
  by (auto simp: strip_def dest!: set_dropWhileD)

lemma gamepad_has_colon:
  assumes "is_gamepad_hotkey s"
  shows "CHR '':'' \<in> set s"
proof -
  from assms have eq: "take (length ''GP:'') (upper (strip s)) = ''GP:''"
    by (simp only: is_gamepad_hotkey_def startswith_def)
  have "CHR '':'' \<in> set ''GP:''"
    by simp
  then have "CHR '':'' \<in> set (take (length ''GP:'') (upper (strip s)))"
    by (simp only: eq)
  then have "CHR '':'' \<in> set (upper (strip s))"
    by (rule in_set_takeD)
  then obtain c where "c \<in> set (strip s)" "upper_char c = CHR '':''"
    by (auto simp: upper_def)
  then show ?thesis
    using upper_char_colon set_strip by blast
qed

lemma split_once_second:
  "sep \<in> set s \<Longrightarrow> index (split_once sep s) 1 = Inr (drop 1 (dropWhile (\<lambda>c. c \<noteq> sep) s))"
proof -
  assume "sep \<in> set s"
  then have "dropWhile (\<lambda>c. c \<noteq> sep) s \<noteq> []"
    by (simp add: dropWhile_eq_Nil_conv) 
  then show ?thesis
    by (cases "dropWhile (\<lambda>c. c \<noteq> sep) s") (simp_all add: split_once_def index_def)
qed

lemma parse_hotkey_total: "\<exists>kind mods key. parse_hotkey s = Inr (kind, mods, key)"
proof (cases "strip s \<noteq> [] \<and> is_gamepad_hotkey (strip s)")
  case True
  then have "CHR '':'' \<in> set (strip s)"
    using gamepad_has_colon by blast
  from split_once_second [OF this] True show ?thesis
    by (simp add: parse_hotkey_def)
next
  case False
  then show ?thesis
    by (auto simp: parse_hotkey_def Let_def split: prod.splits)
qed

lemma if_gate:
  "(if A \<and> \<not> G then x else if B \<and> R then x else y) = (if (A \<and> \<not> G) \<or> (B \<and> R) then x else y)"
  by simp

lemma if_chain2: "A \<or> B \<Longrightarrow> (if A then x else if B then x else y) = x"
  by auto

lemma if_chain3: "A \<or> B \<or> C \<Longrightarrow> (if A then x else if B then x else if C then x else y) = x"
  by auto

lemma scan_kb_step:
  assumes p: "parse_hotkey (get_hotkey (state eng) a []) = Inr (kind, mods, key)"
  shows "scan_kb eng name (a # as) =
     (if kb_matches eng name a then (if gated eng a then Inr [] else Inr [a])
      else scan_kb eng name as)"
proof (cases "kb_matches eng name a")
  case True
  then have m: "kind = ''kb''" "key \<noteq> []" "upper name = upper key" "mods \<subseteq> kb_mods eng"
    using p by (simp_all add: kb_matches_def)
  have "scan_kb eng name (a # as) = (if gated eng a then Inr [] else Inr [a])"
    apply (subst scan_kb.simps)
    apply (subst p)
    apply (simp only: sum.case prod.case m gated_def if_gate simp_thms if_False)
    done
  with True show ?thesis by (simp only: if_True)
next
  case False
  then have m: "kind \<noteq> ''kb'' \<or> key = [] \<or> upper name \<noteq> upper key \<or> \<not> mods \<subseteq> kb_mods eng"
    using p by (simp add: kb_matches_def)
  have "scan_kb eng name (a # as) = scan_kb eng name as"
    apply (subst scan_kb.simps)
    apply (subst p)
    apply (simp only: sum.case prod.case)
    apply (rule if_chain3)
    using m apply blast
    done
  with False show ?thesis by (simp only: if_False)
qed

lemma scan_gp_step:
  assumes p: "parse_hotkey (get_hotkey (state eng) a []) = Inr (kind, mods, btn)"
  shows "scan_gp eng tok (a # as) =
     (if gp_matches eng tok a then (if gated eng a then Inr [] else Inr [a])
      else scan_gp eng tok as)"
proof (cases "gp_matches eng tok a")
  case True
  then have m: "kind = ''gp''" "btn \<noteq> []" "tok = upper (''GP:'' @ btn)"
    using p by (simp_all add: gp_matches_def)
  have "scan_gp eng tok (a # as) = (if gated eng a then Inr [] else Inr [a])"
    apply (subst scan_gp.simps)
    apply (subst p)
    apply (simp only: sum.case prod.case m(1,2) m(3) [symmetric] gated_def if_gate simp_thms if_False)
    done
  with True show ?thesis by (simp only: if_True)
next
  case False
  then have m: "kind \<noteq> ''gp'' \<or> btn = [] \<or> tok \<noteq> upper (''GP:'' @ btn)"
    using p by (simp add: gp_matches_def)
  have "scan_gp eng tok (a # as) = scan_gp eng tok as"
    apply (subst scan_gp.simps)
    apply (subst p)
    apply (simp only: sum.case prod.case)
    apply (rule if_chain2)
    using m apply blast
    done
  with False show ?thesis by (simp only: if_False)
qed

lemma scan_kb_find:
  "scan_kb eng name as =
     Inr (case find (kb_matches eng name) as of
            None \<Rightarrow> []
          | Some a \<Rightarrow> if gated eng a then [] else [a])"
proof (induction as)
  case Nil
  show ?case by (simp only: scan_kb.simps find.simps option.case)
next
  case (Cons a as)
  obtain kind mods key where p: "parse_hotkey (get_hotkey (state eng) a []) = Inr (kind, mods, key)"
    using parse_hotkey_total by blast
  show ?case
  proof (cases "kb_matches eng name a")
    case True
    show ?thesis
      unfolding scan_kb_step [OF p] find.simps
      by (cases "gated eng a") (simp_all only: True if_True if_False option.case)
  next
    case False
    show ?thesis
      unfolding scan_kb_step [OF p] find.simps Cons.IH
      by (simp only: False if_False)
  qed
qed

lemma scan_gp_find:
  "scan_gp eng tok as =
     Inr (case find (gp_matches eng tok) as of
            None \<Rightarrow> []
          | Some a \<Rightarrow> if gated eng a then [] else [a])"
proof (induction as)
  case Nil
  show ?case by (simp only: scan_gp.simps find.simps option.case)
next
  case (Cons a as)
  obtain kind mods key where p: "parse_hotkey (get_hotkey (state eng) a []) = Inr (kind, mods, key)"
    using parse_hotkey_total by blast
  show ?case
  proof (cases "gp_matches eng tok a")
    case True
    show ?thesis
      unfolding scan_gp_step [OF p] find.simps
      by (cases "gated eng a") (simp_all only: True if_True if_False option.case)
  next
    case False
    show ?thesis
      unfolding scan_gp_step [OF p] find.simps Cons.IH
      by (simp only: False if_False)
  qed
qed

lemma maybe_trigger_kb_eq:
  "maybe_trigger_kb eng name =
     Inr (if capture_mode eng then [] else first_match_dispatch (kb_matches eng name) eng)"
  by (simp add: maybe_trigger_kb_def scan_kb_find first_match_dispatch_def)

lemma maybe_trigger_gp_eq:
  "maybe_trigger_gp eng tok =
     Inr (if capture_mode eng then [] else first_match_dispatch (gp_matches eng tok) eng)"
  by (simp add: maybe_trigger_gp_def scan_gp_find first_match_dispatch_def)

lemma find_precedes:
  assumes "find P xs = Some b" "precedes a b xs"
  shows "\<not> P a"
  using assms
proof (induction xs)
  case Nil
  then show ?case by simp
next
  case (Cons x xs)
  then show ?case
    by (auto simp: precedes_def split: if_splits)
qed

lemma first_match_dispatch_cases:
  "first_match_dispatch P eng = [] \<or>
   (\<exists>a. first_match_dispatch P eng = [a] \<and> find P actions = Some a \<and> \<not> gated eng a)"
  by (auto simp: first_match_dispatch_def split: option.splits)

section \<open>Dispatch: first match, gates, re-entrancy\<close>

lemma find_Some_holds: "find P xs = Some x \<Longrightarrow> P x"
  by (induction xs) (auto split: if_splits)

lemma first_match_dispatch_sound:
  assumes "x \<in> set (first_match_dispatch P eng)"
  shows "find P actions = Some x \<and> P x \<and> \<not> gated eng x"
proof -
  from assms have f: "find P actions = Some x" and g: "\<not> gated eng x"
    by (cases "find P actions"; auto simp: first_match_dispatch_def split: if_splits)+
  from f have "P x"
    by (rule find_Some_holds)
  with f g show ?thesis
    by simp
qed

lemma first_match_dispatch_length: "length (first_match_dispatch P eng) \<le> 1"
  by (simp add: first_match_dispatch_def split: option.splits)

lemma first_match_dispatch_later:
  assumes "P a" "precedes a b actions"
  shows "b \<notin> set (first_match_dispatch P eng)"
proof
  assume "b \<in> set (first_match_dispatch P eng)"
  then have "find P actions = Some b"
    using first_match_dispatch_sound by blast
  from find_precedes [OF this assms(2)] assms(1) show False by blast
qed

text \<open>
  C3. A press starts at most one action, and only the first action in declaration order
  whose trigger matches: of two actions that both match, the later one is never started.
  This holds for keyboard keys and for controller tokens.
\<close>

theorem first_match_wins:
  "(\<exists>ds. maybe_trigger_kb eng name = Inr ds \<and> length ds \<le> 1
        \<and> (\<forall>x \<in> set ds. find (kb_matches eng name) actions = Some x)
        \<and> (\<forall>a b. kb_matches eng name a \<and> kb_matches eng name b \<and> precedes a b actions
                  \<longrightarrow> b \<notin> set ds))
   \<and> (\<exists>ds. maybe_trigger_gp eng tok = Inr ds \<and> length ds \<le> 1
        \<and> (\<forall>x \<in> set ds. find (gp_matches eng tok) actions = Some x)
        \<and> (\<forall>a b. gp_matches eng tok a \<and> gp_matches eng tok b \<and> precedes a b actions
                  \<longrightarrow> b \<notin> set ds))"
proof (intro conjI)
  show "\<exists>ds. maybe_trigger_kb eng name = Inr ds \<and> length ds \<le> 1
        \<and> (\<forall>x \<in> set ds. find (kb_matches eng name) actions = Some x)
        \<and> (\<forall>a b. kb_matches eng name a \<and> kb_matches eng name b \<and> precedes a b actions
                  \<longrightarrow> b \<notin> set ds)"
  proof (cases "capture_mode eng")
    case True
    then show ?thesis by (simp add: maybe_trigger_kb_eq)
  next
    case False
    then have "maybe_trigger_kb eng name = Inr (first_match_dispatch (kb_matches eng name) eng)"
      by (simp add: maybe_trigger_kb_eq)
    then show ?thesis
      using first_match_dispatch_length first_match_dispatch_sound first_match_dispatch_later
      by blast
  qed
  show "\<exists>ds. maybe_trigger_gp eng tok = Inr ds \<and> length ds \<le> 1
        \<and> (\<forall>x \<in> set ds. find (gp_matches eng tok) actions = Some x)
        \<and> (\<forall>a b. gp_matches eng tok a \<and> gp_matches eng tok b \<and> precedes a b actions
                  \<longrightarrow> b \<notin> set ds)"
  proof (cases "capture_mode eng")
    case True
    then show ?thesis by (simp add: maybe_trigger_gp_eq)
  next
    case False
    then have "maybe_trigger_gp eng tok = Inr (first_match_dispatch (gp_matches eng tok) eng)"
      by (simp add: maybe_trigger_gp_eq)
    then show ?thesis
      using first_match_dispatch_length first_match_dispatch_sound first_match_dispatch_later
      by blast
  qed
qed

lemma gated_cong:
  "state eng' = state eng \<Longrightarrow> running_hold eng' = running_hold eng \<Longrightarrow> gated eng' a = gated eng a"
  by (simp only: gated_def get_running_def)

lemma gated_blocks: "gated eng a \<Longrightarrow> a \<notin> set (first_match_dispatch P eng)"
  using first_match_dispatch_sound by blast

lemma running_gated:
  "a \<in> {''straightdash'', ''turningdash''} \<Longrightarrow> get_running eng a \<Longrightarrow> gated eng a"
  unfolding gated_def by blast

lemma on_press_result:
  "\<exists>eng' ds l. on_press eng name = Inr (eng', ds, l)
     \<and> state eng' = state eng \<and> running_hold eng' = running_hold eng
     \<and> (gated eng a \<longrightarrow> a \<notin> set ds)"
proof (cases "kill eng \<or> name = []")
  case True
  then show ?thesis by (auto simp: on_press_def)
next
  case False
  define eng2 where "eng2 =
     (if name \<notin> MOD_NAMES
      then eng\<lparr>kb_mods := update_kb_mods (kb_mods eng) name True,
               kb_pressed := insert name (kb_pressed eng)\<rparr>
      else eng\<lparr>kb_mods := update_kb_mods (kb_mods eng) name True\<rparr>)"
  have same: "state eng2 = state eng" "running_hold eng2 = running_hold eng"
    by (simp_all add: eng2_def)
  have r: "on_press eng name =
       Inr (eng2, if capture_mode eng2 then [] else first_match_dispatch (kb_matches eng2 name) eng2, True)"
    using False by (simp add: on_press_def maybe_trigger_kb_eq eng2_def Let_def)
  have "gated eng a \<longrightarrow> a \<notin> set (if capture_mode eng2 then []
           else first_match_dispatch (kb_matches eng2 name) eng2)"
    using gated_blocks [of eng2 a] gated_cong [OF same, of a] by simp
  with r same show ?thesis by blast
qed

lemma on_gamepad_press_result:
  "\<exists>eng' ds. on_gamepad_press eng tok = Inr (eng', ds)
     \<and> state eng' = state eng \<and> running_hold eng' = running_hold eng
     \<and> (gated eng a \<longrightarrow> a \<notin> set ds)"
proof (cases "kill eng")
  case True
  then show ?thesis by (auto simp: on_gamepad_press_def)
next
  case False
  define eng2 where "eng2 = eng\<lparr>gp_pressed := insert (upper tok) (gp_pressed eng)\<rparr>"
  have same: "state eng2 = state eng" "running_hold eng2 = running_hold eng"
    by (simp_all add: eng2_def)
  have r: "on_gamepad_press eng tok =
       Inr (eng2, if capture_mode eng2 then []
                  else first_match_dispatch (gp_matches eng2 (upper tok)) eng2)"
    using False by (simp add: on_gamepad_press_def maybe_trigger_gp_eq eng2_def Let_def)
  have "gated eng a \<longrightarrow> a \<notin> set (if capture_mode eng2 then []
           else first_match_dispatch (gp_matches eng2 (upper tok)) eng2)"
    using gated_blocks [of eng2 a] gated_cong [OF same, of a] by simp
  with r same show ?thesis by blast
qed

lemma press_all_kb_result:
  "\<exists>eng' ds. press_all_kb eng names = Inr (eng', ds)
     \<and> state eng' = state eng \<and> running_hold eng' = running_hold eng
     \<and> (gated eng a \<longrightarrow> a \<notin> set ds)"
proof (induction names arbitrary: eng)
  case Nil
  show ?case by simp
next
  case (Cons n names)
  obtain e1 d1 l where 1: "on_press eng n = Inr (e1, d1, l)" "state e1 = state eng"
      "running_hold e1 = running_hold eng" "gated eng a \<longrightarrow> a \<notin> set d1"
    using on_press_result [of eng n a] by blast
  obtain e2 d2 where 2: "press_all_kb e1 names = Inr (e2, d2)" "state e2 = state e1"
      "running_hold e2 = running_hold e1" "gated e1 a \<longrightarrow> a \<notin> set d2"
    using Cons.IH [of e1] by blast
  have "gated e1 a = gated eng a"
    using 1 by (intro gated_cong)
  with 1 2 show ?case by (cases l) simp_all
qed

lemma press_all_gp_result:
  "\<exists>eng' ds. press_all_gp eng toks = Inr (eng', ds)
     \<and> state eng' = state eng \<and> running_hold eng' = running_hold eng
     \<and> (gated eng a \<longrightarrow> a \<notin> set ds)"
proof (induction toks arbitrary: eng)
  case Nil
  show ?case by simp
next
  case (Cons n toks)
  obtain e1 d1 where 1: "on_gamepad_press eng n = Inr (e1, d1)" "state e1 = state eng"
      "running_hold e1 = running_hold eng" "gated eng a \<longrightarrow> a \<notin> set d1"
    using on_gamepad_press_result [of eng n a] by blast
  obtain e2 d2 where 2: "press_all_gp e1 toks = Inr (e2, d2)" "state e2 = state e1"
      "running_hold e2 = running_hold e1" "gated e1 a \<longrightarrow> a \<notin> set d2"
    using Cons.IH [of e1] by blast
  have "gated e1 a = gated eng a"
    using 1 by (intro gated_cong)
  with 1 2 show ?case by simp
qed

text \<open>
  The re-entrancy guard. While the registry entry of a hold action is set, press tokens
  never start that action again, however many arrive, and they leave the registry
  unchanged; a press whose first match is that action starts nothing.
\<close>

lemma reentrancy_guard:
  assumes "a \<in> {''straightdash'', ''turningdash''}" "get_running eng a"
  shows "(\<exists>eng' ds. press_all_kb eng names = Inr (eng', ds) \<and> a \<notin> set ds
             \<and> running_hold eng' = running_hold eng)
       \<and> (\<exists>eng' ds. press_all_gp eng toks = Inr (eng', ds) \<and> a \<notin> set ds
             \<and> running_hold eng' = running_hold eng)
       \<and> (find (kb_matches eng name) actions = Some a \<longrightarrow> maybe_trigger_kb eng name = Inr [])
       \<and> (find (gp_matches eng tok) actions = Some a \<longrightarrow> maybe_trigger_gp eng tok = Inr [])"
proof -
  have g: "gated eng a"
    using assms by (rule running_gated)
  have "\<exists>eng' ds. press_all_kb eng names = Inr (eng', ds) \<and> a \<notin> set ds
             \<and> running_hold eng' = running_hold eng"
    using press_all_kb_result [of eng names a] g by blast
  moreover have "\<exists>eng' ds. press_all_gp eng toks = Inr (eng', ds) \<and> a \<notin> set ds
             \<and> running_hold eng' = running_hold eng"
    using press_all_gp_result [of eng toks a] g by blast
  moreover have "find (kb_matches eng name) actions = Some a \<longrightarrow> maybe_trigger_kb eng name = Inr []"
    using g by (simp add: maybe_trigger_kb_eq first_match_dispatch_def)
  moreover have "find (gp_matches eng tok) actions = Some a \<longrightarrow> maybe_trigger_gp eng tok = Inr []"
    using g by (simp add: maybe_trigger_gp_eq first_match_dispatch_def)
  ultimately show ?thesis by blast
qed


theorem first_match_wins_witness:
  "kb_matches shared_kb ''H'' ''stall'' \<and> kb_matches shared_kb ''H'' ''speedflip''
   \<and> precedes ''stall'' ''speedflip'' actions
   \<and> maybe_trigger_kb shared_kb ''H'' = Inr [''stall'']
   \<and> gp_matches shared_gp ''GP:A'' ''stall'' \<and> gp_matches shared_gp ''GP:A'' ''speedflip''
   \<and> maybe_trigger_gp shared_gp ''GP:A'' = Inr [''stall'']
   \<and> (\<exists>ds. maybe_trigger_kb shared_kb ''H'' = Inr ds \<and> ''speedflip'' \<notin> set ds)
   \<and> (\<exists>ds. maybe_trigger_gp shared_gp ''GP:A'' = Inr ds \<and> ''speedflip'' \<notin> set ds)"
proof -
  have k: "kb_matches shared_kb ''H'' ''stall''" "kb_matches shared_kb ''H'' ''speedflip''"
    by code_simp+
  have g: "gp_matches shared_gp ''GP:A'' ''stall''" "gp_matches shared_gp ''GP:A'' ''speedflip''"
    by code_simp+
  have p: "precedes ''stall'' ''speedflip'' actions"
    by code_simp
  have d: "maybe_trigger_kb shared_kb ''H'' = Inr [''stall'']"
          "maybe_trigger_gp shared_gp ''GP:A'' = Inr [''stall'']"
    by code_simp+
  from first_match_wins [where eng = shared_kb and name = "''H''"]
       first_match_wins [where eng = shared_gp and tok = "''GP:A''"] k g p
  have "(\<exists>ds. maybe_trigger_kb shared_kb ''H'' = Inr ds \<and> ''speedflip'' \<notin> set ds)
      \<and> (\<exists>ds. maybe_trigger_gp shared_gp ''GP:A'' = Inr ds \<and> ''speedflip'' \<notin> set ds)"
    by blast
  with k g p d show ?thesis by blast
qed

lemma reentrancy_guard_example:
  "''straightdash'' \<in> {''straightdash'', ''turningdash''}
   \<and> get_running holding_kb ''straightdash''
   \<and> find (kb_matches holding_kb ''V'') actions = Some ''straightdash''
   \<and> maybe_trigger_kb holding_kb ''V'' = Inr []
   \<and> maybe_trigger_kb (MacroEngine DEFAULTS) ''V'' = Inr [''straightdash'']
   \<and> (\<exists>eng' ds. press_all_kb holding_kb [''V'', ''V'', ''V''] = Inr (eng', ds)
          \<and> ''straightdash'' \<notin> set ds \<and> running_hold eng' = running_hold holding_kb)
   \<and> ''turningdash'' \<in> {''straightdash'', ''turningdash''}
   \<and> get_running holding_gp ''turningdash''
   \<and> find (gp_matches holding_gp ''GP:LB'') actions = Some ''turningdash''
   \<and> maybe_trigger_gp holding_gp ''GP:LB'' = Inr []
   \<and> (\<exists>eng' ds. press_all_gp holding_gp [''GP:LB'', ''gp:lb''] = Inr (eng', ds)
          \<and> ''turningdash'' \<notin> set ds \<and> running_hold eng' = running_hold holding_gp)"
proof -
  have a: "''straightdash'' \<in> {''straightdash'', ''turningdash''}"
          "''turningdash'' \<in> {''straightdash'', ''turningdash''}"
    by simp_all
  have r: "get_running holding_kb ''straightdash''" "get_running holding_gp ''turningdash''"
    by code_simp+
  have f: "find (kb_matches holding_kb ''V'') actions = Some ''straightdash''"
          "find (gp_matches holding_gp ''GP:LB'') actions = Some ''turningdash''"
    by code_simp+
  have c: "maybe_trigger_kb (MacroEngine DEFAULTS) ''V'' = Inr [''straightdash'']"
    by code_simp
  note k = reentrancy_guard [OF a(1) r(1), where names = "[''V'', ''V'', ''V'']" and name = "''V''"]
  note g = reentrancy_guard [OF a(2) r(2), where toks = "[''GP:LB'', ''gp:lb'']" and tok = "''GP:LB''"]
  from k f(1) have 1: "maybe_trigger_kb holding_kb ''V'' = Inr []" by blast
  from g f(2) have 2: "maybe_trigger_gp holding_gp ''GP:LB'' = Inr []" by blast
  from k have 3: "\<exists>eng' ds. press_all_kb holding_kb [''V'', ''V'', ''V''] = Inr (eng', ds)
          \<and> ''straightdash'' \<notin> set ds \<and> running_hold eng' = running_hold holding_kb" by blast
  from g have 4: "\<exists>eng' ds. press_all_gp holding_gp [''GP:LB'', ''gp:lb''] = Inr (eng', ds)
          \<and> ''turningdash'' \<notin> set ds \<and> running_hold eng' = running_hold holding_gp" by blast
  from a r f c 1 2 3 4 show ?thesis by blast
qed

text \<open>
  C6 does not hold of the code. The router only reads the registry entry; it is the
  started thread that writes it, as its first statement. A pad seen by both controller
  backends delivers its press twice: when the second press arrives before the first thread
  has run that statement, the guard reads \<open>False\<close> and a second hold loop of the same
  action is started. Once the statement has run, the second press starts nothing.
\<close>

theorem duplicate_press_starts_two_hold_loops:
  "(case deliver_all (pad_bindings, True) [PadPress ''GP:A'', PadPress ''GP:A''] of
      Inl e \<Rightarrow> False
    | Inr ((eng, running), ds) \<Rightarrow>
        ds = [''straightdash'', ''straightdash''] \<and> \<not> get_running eng ''straightdash'')
   \<and> (case deliver_all (pad_bindings, True)
           [PadPress ''GP:A'', MacroEffects [SetRunning ''straightdash'' True], PadPress ''GP:A''] of
      Inl e \<Rightarrow> False
    | Inr ((eng, running), ds) \<Rightarrow> ds = [''straightdash''] \<and> get_running eng ''straightdash'')"
  by code_simp

section \<open>Empty and malformed bindings\<close>

lemma strip_blank:
  assumes "\<forall>c \<in> set s. isspace c"
  shows "strip s = []"
proof -
  from assms have d: "dropWhile isspace s = []"
    by (simp add: dropWhile_eq_Nil_conv)
  show ?thesis
    unfolding strip_def d by simp
qed

lemma parse_hotkey_blank: "\<forall>c \<in> set s. isspace c \<Longrightarrow> parse_hotkey s = Inr (''kb'', {}, [])"
  by (simp add: parse_hotkey_def strip_blank)

lemma empty_symbol_no_match:
  assumes "parse_hotkey (get_hotkey (state eng) a []) = Inr (kind, mods, [])"
  shows "\<not> kb_matches eng name a" "\<not> gp_matches eng tok a"
  using assms by (simp_all add: kb_matches_def gp_matches_def)

lemma unmatched_not_dispatched: "\<not> P a \<Longrightarrow> a \<notin> set (first_match_dispatch P eng)"
  using first_match_dispatch_sound by blast

text \<open>
  C9. \<open>parse_hotkey\<close> returns a trigger for every string; on empty or white-space input
  it returns the keyboard trigger with no modifier and an empty symbol; an action whose
  binding parses to an empty symbol matches no key and no controller token and is never
  started, and the routers return without an error.
\<close>

theorem empty_trigger_never_dispatches:
  "(\<exists>t. parse_hotkey s = Inr t)
   \<and> ((\<forall>c \<in> set s. isspace c) \<longrightarrow> parse_hotkey s = Inr (''kb'', {}, []))
   \<and> (\<exists>ds. maybe_trigger_kb eng name = Inr ds
         \<and> (\<forall>a kind mods. parse_hotkey (get_hotkey (state eng) a []) = Inr (kind, mods, [])
               \<longrightarrow> \<not> kb_matches eng name a \<and> a \<notin> set ds))
   \<and> (\<exists>ds. maybe_trigger_gp eng tok = Inr ds
         \<and> (\<forall>a kind mods. parse_hotkey (get_hotkey (state eng) a []) = Inr (kind, mods, [])
               \<longrightarrow> \<not> gp_matches eng tok a \<and> a \<notin> set ds))"
proof -
  have 1: "\<exists>t. parse_hotkey s = Inr t"
    using parse_hotkey_total [of s] by blast
  have 2: "(\<forall>c \<in> set s. isspace c) \<longrightarrow> parse_hotkey s = Inr (''kb'', {}, [])"
    using parse_hotkey_blank by blast
  have 3: "\<exists>ds. maybe_trigger_kb eng name = Inr ds
         \<and> (\<forall>a kind mods. parse_hotkey (get_hotkey (state eng) a []) = Inr (kind, mods, [])
               \<longrightarrow> \<not> kb_matches eng name a \<and> a \<notin> set ds)"
  proof (intro exI conjI allI impI)
    show "maybe_trigger_kb eng name =
        Inr (if capture_mode eng then [] else first_match_dispatch (kb_matches eng name) eng)"
      by (rule maybe_trigger_kb_eq)
  next
    fix a kind mods
    assume p: "parse_hotkey (get_hotkey (state eng) a []) = Inr (kind, mods, [])"
    then show n: "\<not> kb_matches eng name a"
      by (rule empty_symbol_no_match)
    then show "a \<notin> set (if capture_mode eng then []
          else first_match_dispatch (kb_matches eng name) eng)"
      using unmatched_not_dispatched [of "kb_matches eng name" a eng] by simp
  qed
  have 4: "\<exists>ds. maybe_trigger_gp eng tok = Inr ds
         \<and> (\<forall>a kind mods. parse_hotkey (get_hotkey (state eng) a []) = Inr (kind, mods, [])
               \<longrightarrow> \<not> gp_matches eng tok a \<and> a \<notin> set ds)"
  proof (intro exI conjI allI impI)
    show "maybe_trigger_gp eng tok =
        Inr (if capture_mode eng then [] else first_match_dispatch (gp_matches eng tok) eng)"
      by (rule maybe_trigger_gp_eq)
  next
    fix a kind mods
    assume p: "parse_hotkey (get_hotkey (state eng) a []) = Inr (kind, mods, [])"
    then show n: "\<not> gp_matches eng tok a"
      by (rule empty_symbol_no_match)
    then show "a \<notin> set (if capture_mode eng then []
          else first_match_dispatch (gp_matches eng tok) eng)"
      using unmatched_not_dispatched [of "gp_matches eng tok" a eng] by simp
  qed
  from 1 2 3 4 show ?thesis by blast
qed

theorem empty_trigger_never_dispatches_witness:
  "list_all isspace ''  ''
   \<and> parse_hotkey ''  '' = Inr (''kb'', {}, [])
   \<and> parse_hotkey (get_hotkey (state blank_binding) ''stall'' []) = Inr (''kb'', {}, [])
   \<and> parse_hotkey (get_hotkey (state blank_binding) ''speedflip'' []) = Inr (''gp'', {}, [])
   \<and> parse_hotkey (get_hotkey (state blank_binding) ''emergency'' []) = Inr (''kb'', {}, [])
   \<and> (\<exists>ds. maybe_trigger_kb blank_binding [] = Inr ds
          \<and> ''stall'' \<notin> set ds \<and> ''emergency'' \<notin> set ds)
   \<and> (\<exists>ds. maybe_trigger_gp blank_binding ''GP:'' = Inr ds \<and> ''speedflip'' \<notin> set ds)
   \<and> list_all isspace [CHR 0xA0, CHR 0x85, CHR 0x09]
   \<and> parse_hotkey [CHR 0xA0, CHR 0x85, CHR 0x09] = Inr (''kb'', {}, [])
   \<and> parse_hotkey (get_hotkey (state nbsp_binding) ''stall'' []) = Inr (''kb'', {}, [])
   \<and> (\<exists>ds. maybe_trigger_kb nbsp_binding [CHR 0xA0] = Inr ds \<and> ''stall'' \<notin> set ds)
   \<and> maybe_trigger_kb nbsp_binding [CHR 0xA0] = Inr []"
proof -
  have b: "\<forall>c \<in> set ''  ''. isspace c"
    by code_simp
  have p: "parse_hotkey (get_hotkey (state blank_binding) ''stall'' []) = Inr (''kb'', {}, [])"
          "parse_hotkey (get_hotkey (state blank_binding) ''speedflip'' []) = Inr (''gp'', {}, [])"
          "parse_hotkey (get_hotkey (state blank_binding) ''emergency'' []) = Inr (''kb'', {}, [])"
    by code_simp+
  note t = empty_trigger_never_dispatches
             [where s = "''  ''" and eng = blank_binding and name = "[]" and tok = "''GP:''"]
  from t b have 1: "parse_hotkey ''  '' = Inr (''kb'', {}, [])"
    by blast
  from t p have 2: "\<exists>ds. maybe_trigger_kb blank_binding [] = Inr ds
          \<and> ''stall'' \<notin> set ds \<and> ''emergency'' \<notin> set ds"
    by blast
  from t p have 3: "\<exists>ds. maybe_trigger_gp blank_binding ''GP:'' = Inr ds \<and> ''speedflip'' \<notin> set ds"
    by blast
  from b have 0: "list_all isspace ''  ''"
    by (simp only: list_all_iff)
  have c: "\<forall>c \<in> set [CHR 0xA0, CHR 0x85, CHR 0x09]. isspace c"
    by code_simp
  then have 4: "list_all isspace [CHR 0xA0, CHR 0x85, CHR 0x09]"
    by (simp only: list_all_iff)
  have q: "parse_hotkey (get_hotkey (state nbsp_binding) ''stall'' []) = Inr (''kb'', {}, [])"
    by code_simp
  note u = empty_trigger_never_dispatches
             [where s = "[CHR 0xA0, CHR 0x85, CHR 0x09]" and eng = nbsp_binding
                and name = "[CHR 0xA0]"]
  from u [THEN conjunct2, THEN conjunct1] c
  have 5: "parse_hotkey [CHR 0xA0, CHR 0x85, CHR 0x09] = Inr (''kb'', {}, [])"
    by blast
  from u [THEN conjunct2, THEN conjunct2, THEN conjunct1] q
  have 6: "\<exists>ds. maybe_trigger_kb nbsp_binding [CHR 0xA0] = Inr ds \<and> ''stall'' \<notin> set ds"
    by blast
  have 7: "maybe_trigger_kb nbsp_binding [CHR 0xA0] = Inr []"
    by code_simp
  show ?thesis
    by (intro conjI) (fact 0 1 p 2 3 4 5 q 6 7)+
qed

section \<open>Cleanup of hold loops and the emergency sweep\<close>

lemma straightdash_shape:
  assumes "act_straightdash_hold eng snaps = Some (tr, r)"
  obtains b where "straightdash_body eng snaps = Some (b, r)"
    "tr = SetRunning ''straightdash'' True # b @ map KeyUp [''Q'', ''W'']
            @ [SetRunning ''straightdash'' False]"
  using assms
  by (cases "straightdash_body eng snaps") (auto simp: act_straightdash_hold_def)

lemma turningdash_shape:
  assumes "act_turningdash_hold eng snaps = Some (tr, r)"
  obtains b where "turningdash_body eng snaps = Some (b, r)"
    "tr = SetRunning ''turningdash'' True # b @ map KeyUp [''A'', ''D'', ''Q'', ''W'']
            @ [SetRunning ''turningdash'' False]"
  using assms
  by (cases "turningdash_body eng snaps") (auto simp: act_turningdash_hold_def)

lemma released_not_active: "kb_pressed e = {} \<Longrightarrow> gp_pressed e = {} \<Longrightarrow> \<not> hold_active e kind key"
  by (simp add: hold_active_def)

lemma straightdash_terminates:
  assumes "\<exists>e \<in> set snaps. kill e \<or> \<not> get_global (state e)
             \<or> \<not> get_feature (state e) ''straightdash'' \<or> (kb_pressed e = {} \<and> gp_pressed e = {})"
  shows "\<exists>res. act_straightdash_hold eng snaps = Some res"
proof -
  have "\<exists>res. hold_loop ''straightdash'' cycle kind key snaps = Some res" for cycle kind key
    using assms by (intro hold_loop_terminates) (use released_not_active in blast)
  then have "\<exists>res. straightdash_body eng snaps = Some res"
    by (simp add: straightdash_body_def split: sum.splits prod.splits)
  then show ?thesis
    by (auto simp: act_straightdash_hold_def)
qed

lemma turningdash_terminates:
  assumes "\<exists>e \<in> set snaps. kill e \<or> \<not> get_global (state e)
             \<or> \<not> get_feature (state e) ''turningdash'' \<or> (kb_pressed e = {} \<and> gp_pressed e = {})"
  shows "\<exists>res. act_turningdash_hold eng snaps = Some res"
proof -
  have "\<exists>res. hold_loop ''turningdash'' cycle kind key snaps = Some res" for cycle kind key
    using assms by (intro hold_loop_terminates) (use released_not_active in blast)
  then have "\<exists>res. turningdash_body eng snaps = Some res"
    by (simp add: turningdash_body_def split: sum.splits prod.splits)
  then show ?thesis
    by (auto simp: act_turningdash_hold_def)
qed

text \<open>
  C5. Whenever a hold action returns, normally or by an exception, its trace ends with
  the key-ups of its \<open>finally\<close> block and the registry write \<open>False\<close>; no key it has
  pressed is left down, and its registry entry is \<open>False\<close> afterwards. It does return
  once an iteration reads the kill flag set, a flag switched off or the trigger released.
\<close>

theorem hold_loop_cleanup:
  "(act_straightdash_hold eng snaps = Some (tr, r) \<longrightarrow>
       (\<exists>pre. tr = pre @ [KeyUp ''Q'', KeyUp ''W'', SetRunning ''straightdash'' False])
     \<and> pressed_keys tr \<inter> held_after tr h = {}
     \<and> running_hold (run_effects tr e0) ''straightdash'' = Some False)
   \<and> (act_turningdash_hold eng snaps = Some (tr, r) \<longrightarrow>
       (\<exists>pre. tr = pre @ [KeyUp ''A'', KeyUp ''D'', KeyUp ''Q'', KeyUp ''W'',
                          SetRunning ''turningdash'' False])
     \<and> pressed_keys tr \<inter> held_after tr h = {}
     \<and> running_hold (run_effects tr e0) ''turningdash'' = Some False)
   \<and> ((\<exists>e \<in> set snaps. kill e \<or> \<not> get_global (state e)
             \<or> \<not> get_feature (state e) ''straightdash'' \<or> (kb_pressed e = {} \<and> gp_pressed e = {}))
        \<longrightarrow> (\<exists>res. act_straightdash_hold eng snaps = Some res))
   \<and> ((\<exists>e \<in> set snaps. kill e \<or> \<not> get_global (state e)
             \<or> \<not> get_feature (state e) ''turningdash'' \<or> (kb_pressed e = {} \<and> gp_pressed e = {}))
        \<longrightarrow> (\<exists>res. act_turningdash_hold eng snaps = Some res))"
proof (intro conjI impI)
  assume a: "act_straightdash_hold eng snaps = Some (tr, r)"
  then obtain b where b: "straightdash_body eng snaps = Some (b, r)"
    and tr: "tr = SetRunning ''straightdash'' True # b @ map KeyUp [''Q'', ''W'']
            @ [SetRunning ''straightdash'' False]"
    by (rule straightdash_shape)
  show "\<exists>pre. tr = pre @ [KeyUp ''Q'', KeyUp ''W'', SetRunning ''straightdash'' False]"
    unfolding tr by (rule exI [of _ "SetRunning ''straightdash'' True # b"]) simp
  have "pressed_keys b \<subseteq> set [''Q'', ''W'']"
    using straightdash_body_keys [OF b] by auto
  then show "pressed_keys tr \<inter> held_after tr h = {}"
    unfolding tr by (rule cleanup_releases)
  show "running_hold (run_effects tr e0) ''straightdash'' = Some False"
    using cleanup_registry [of "SetRunning ''straightdash'' True # b @ map KeyUp [''Q'', ''W'']"]
    unfolding tr by simp
next
  assume a: "act_turningdash_hold eng snaps = Some (tr, r)"
  then obtain b where b: "turningdash_body eng snaps = Some (b, r)"
    and tr: "tr = SetRunning ''turningdash'' True # b @ map KeyUp [''A'', ''D'', ''Q'', ''W'']
            @ [SetRunning ''turningdash'' False]"
    by (rule turningdash_shape)
  show "\<exists>pre. tr = pre @ [KeyUp ''A'', KeyUp ''D'', KeyUp ''Q'', KeyUp ''W'',
                          SetRunning ''turningdash'' False]"
    unfolding tr by (rule exI [of _ "SetRunning ''turningdash'' True # b"]) simp
  have "pressed_keys b \<subseteq> set [''A'', ''D'', ''Q'', ''W'']"
    using turningdash_body_keys [OF b] by auto
  then show "pressed_keys tr \<inter> held_after tr h = {}"
    unfolding tr by (rule cleanup_releases)
  show "running_hold (run_effects tr e0) ''turningdash'' = Some False"
    using cleanup_registry [of "SetRunning ''turningdash'' True # b @ map KeyUp [''A'', ''D'', ''Q'', ''W'']"]
    unfolding tr by simp
next
  assume "\<exists>e \<in> set snaps. kill e \<or> \<not> get_global (state e)
             \<or> \<not> get_feature (state e) ''straightdash'' \<or> (kb_pressed e = {} \<and> gp_pressed e = {})"
  then show "\<exists>res. act_straightdash_hold eng snaps = Some res"
    by (rule straightdash_terminates)
next
  assume "\<exists>e \<in> set snaps. kill e \<or> \<not> get_global (state e)
             \<or> \<not> get_feature (state e) ''turningdash'' \<or> (kb_pressed e = {} \<and> gp_pressed e = {})"
  then show "\<exists>res. act_turningdash_hold eng snaps = Some res"
    by (rule turningdash_terminates)
qed

lemma ex_sd: "act_straightdash_hold (MacroEngine DEFAULTS) released_after_one =
     Some ([SetRunning ''straightdash'' True, KeyDown ''W'', KeyDown ''Q'',
            MouseRight True, Sleep 15, MouseRight False, Sleep 25,
            MouseRight True, Sleep 15, MouseRight False, Sleep 1,
            KeyUp ''Q'', KeyUp ''W'', SetRunning ''straightdash'' False], None)"
  by code_simp

lemma ex_td: "act_turningdash_hold negative_click
        [negative_click\<lparr>kb_pressed := {''N''}\<rparr>] =
     Some ([SetRunning ''turningdash'' True, KeyDown ''W'', KeyDown ''Q'', KeyDown ''D'', Sleep 10,
            KeyUp ''D'', KeyDown ''A'', MouseRight True,
            KeyUp ''A'', KeyUp ''D'', KeyUp ''Q'', KeyUp ''W'',
            SetRunning ''turningdash'' False], Some ValueError)"
  by code_simp

lemma release_all_outputs_eq: "release_all_outputs = map KeyUp all_keys @ [MouseRight False]"
  by (simp add: release_all_outputs_def all_keys_def)

lemma held_after_release: "held_after release_all_outputs h = h - set all_keys"
  unfolding release_all_outputs_eq held_after_append held_after_ups
  by (simp add: held_after_def)

lemma emergency_trace:
  "fst act_emergency =
     SetKill True # map KeyUp all_keys @ [MouseRight False, Beep False, Sleep 150, SetKill False]"
  by (simp add: act_emergency_def release_all_outputs_eq)

lemma emergency_held: "held_after (fst act_emergency) h = h - set all_keys"
proof -
  have e: "fst act_emergency =
      [SetKill True] @ release_all_outputs @ [Beep False, Sleep 150, SetKill False]"
    by (simp add: act_emergency_def)
  show ?thesis
    unfolding e held_after_append held_after_release by (simp add: held_after_def)
qed

lemma mouse_after_append: "mouse_after (xs @ ys) m = mouse_after ys (mouse_after xs m)"
  by (simp add: mouse_after_def)

lemma mouse_after_ups: "mouse_after (map KeyUp ks) m = m"
  by (induction ks) (simp_all add: mouse_after_def)

lemma emergency_mouse: "mouse_after (fst act_emergency) m = False"
proof -
  have "fst act_emergency =
      [SetKill True] @ map KeyUp all_keys @ [MouseRight False, Beep False, Sleep 150, SetKill False]"
    by (simp add: emergency_trace)
  then show ?thesis
    by (simp only: mouse_after_append mouse_after_ups) (simp add: mouse_after_def)
qed

lemma run_effects_ups: "run_effects (map KeyUp ks) eng = eng"
  by (induction ks) (simp_all add: run_effects_def)

lemma emergency_state: "run_effects (fst act_emergency) eng = eng\<lparr>kill := False\<rparr>"
proof -
  have "fst act_emergency =
      [SetKill True] @ map KeyUp all_keys @ [MouseRight False, Beep False, Sleep 150, SetKill False]"
    by (simp add: emergency_trace)
  then show ?thesis
    by (simp only: run_effects_append run_effects_ups) (simp add: run_effects_def)
qed

lemma perform_keys: "pressed_keys (fst (perform es)) \<subseteq> pressed_keys es"
  using perform_subset by (rule pressed_keys_mono)

lemma stall_keys: "pressed_keys (fst (act_stall eng)) \<subseteq> set all_keys"
proof -
  let ?steps = "\<lambda>t. [KeyDown ''Q'', KeyDown ''D'', MouseRight True, Sleep (max 0 t),
                     MouseRight False, KeyUp ''D'', KeyUp ''Q'']"
  have "fst (act_stall eng) = [] \<or> (\<exists>t. fst (act_stall eng) = fst (perform (?steps t)))"
    by (auto simp: act_stall_def split: sum.splits)
  moreover have "pressed_keys (?steps t) \<subseteq> set all_keys" for t
    by (auto simp: pressed_keys_def all_keys_def)
  ultimately show ?thesis
    using perform_keys by (fastforce simp: pressed_keys_def)
qed

lemma speedflip_steps_keys: "pressed_keys (speedflip_steps p) \<subseteq> set all_keys"
  by (auto simp: pressed_keys_def speedflip_steps_def all_keys_def Let_def split: if_splits)

lemma speedflip_keys: "pressed_keys (fst (act_speedflip eng)) \<subseteq> set all_keys"
proof -
  have "fst (act_speedflip eng) = [] \<or>
        (\<exists>p. fst (act_speedflip eng) = fst (perform (speedflip_steps p)))"
    by (auto simp: act_speedflip_def split: sum.splits)
  then show ?thesis
    using speedflip_steps_keys perform_keys by (fastforce simp: pressed_keys_def)
qed

lemma after_gp:
  "on_gamepad_press (eng\<lparr>kill := False\<rparr>) tok =
       (let e2 = eng\<lparr>kill := False, gp_pressed := insert (upper tok) (gp_pressed eng)\<rparr>
        in Inr (e2, if capture_mode eng then []
                    else first_match_dispatch (gp_matches e2 (upper tok)) e2))"
  by (simp add: on_gamepad_press_def maybe_trigger_gp_eq Let_def)

lemma after_kb:
  "on_press (eng\<lparr>kill := False\<rparr>) name =
     (if name = [] then Inr (eng\<lparr>kill := False\<rparr>, [], True)
      else (let e2 = (if name \<notin> MOD_NAMES
                      then eng\<lparr>kill := False,
                               kb_mods := update_kb_mods (kb_mods eng) name True,
                               kb_pressed := insert name (kb_pressed eng)\<rparr>
                      else eng\<lparr>kill := False,
                               kb_mods := update_kb_mods (kb_mods eng) name True\<rparr>)
            in Inr (e2, if capture_mode eng then []
                        else first_match_dispatch (kb_matches e2 name) e2, True)))"
  by (simp add: on_press_def maybe_trigger_kb_eq Let_def)


lemma release_idempotent:
  "held_after (release_all_outputs @ release_all_outputs) h = held_after release_all_outputs h"
  unfolding held_after_append held_after_release by auto

lemma straightdash_keys:
  assumes "act_straightdash_hold e1 snaps = Some (tr, r)"
  shows "pressed_keys tr \<subseteq> set all_keys"
proof -
  from assms obtain b where b: "straightdash_body e1 snaps = Some (b, r)"
    and tr: "tr = SetRunning ''straightdash'' True # b @ map KeyUp [''Q'', ''W'']
          @ [SetRunning ''straightdash'' False]"
    by (rule straightdash_shape)
  have "pressed_keys tr = pressed_keys b"
    unfolding tr by (auto simp: pressed_keys_def)
  with straightdash_body_keys [OF b] show ?thesis
    by (auto simp: all_keys_def)
qed

lemma turningdash_keys:
  assumes "act_turningdash_hold e1 snaps = Some (tr, r)"
  shows "pressed_keys tr \<subseteq> set all_keys"
proof -
  from assms obtain b where b: "turningdash_body e1 snaps = Some (b, r)"
    and tr: "tr = SetRunning ''turningdash'' True # b @ map KeyUp [''A'', ''D'', ''Q'', ''W'']
          @ [SetRunning ''turningdash'' False]"
    by (rule turningdash_shape)
  have "pressed_keys tr = pressed_keys b"
    unfolding tr by (auto simp: pressed_keys_def)
  with turningdash_body_keys [OF b] show ?thesis
    by (auto simp: all_keys_def)
qed

text \<open>
  The emergency sweep. Emergency sets the kill flag, issues a key-up for each of W, A, S,
  D, Q, E, I, LShift and a right-button-up, then clears the kill flag. Whatever was down
  before, none of these keys is down afterwards; releasing twice is the same as once;
  every key a macro presses is among them; afterwards the engine state differs only in the
  cleared kill flag, and a press that is delivered then reaches the router.
\<close>

lemma emergency_releases_all:
  "fst act_emergency =
     SetKill True # map KeyUp [''W'', ''A'', ''S'', ''D'', ''Q'', ''E'', ''I'', ''LShift'']
       @ [MouseRight False, Beep False, Sleep 150, SetKill False]
   \<and> snd act_emergency = None
   \<and> held_after (fst act_emergency) h = h - set all_keys
   \<and> mouse_after (fst act_emergency) m = False
   \<and> held_after (release_all_outputs @ release_all_outputs) h = held_after release_all_outputs h
   \<and> pressed_keys (fst (act_stall e1)) \<subseteq> set all_keys
   \<and> pressed_keys (fst (act_speedflip e1)) \<subseteq> set all_keys
   \<and> (act_straightdash_hold e1 snaps = Some (tr, r) \<longrightarrow> pressed_keys tr \<subseteq> set all_keys)
   \<and> (act_turningdash_hold e1 snaps = Some (tr, r) \<longrightarrow> pressed_keys tr \<subseteq> set all_keys)
   \<and> run_effects (fst act_emergency) eng = eng\<lparr>kill := False\<rparr>
   \<and> on_gamepad_press (run_effects (fst act_emergency) eng) tok =
       (let e2 = eng\<lparr>kill := False, gp_pressed := insert (upper tok) (gp_pressed eng)\<rparr>
        in Inr (e2, if capture_mode eng then []
                    else first_match_dispatch (gp_matches e2 (upper tok)) e2))
   \<and> on_press (run_effects (fst act_emergency) eng) name =
       (if name = [] then Inr (eng\<lparr>kill := False\<rparr>, [], True)
        else (let e2 = (if name \<notin> MOD_NAMES
                        then eng\<lparr>kill := False,
                                 kb_mods := update_kb_mods (kb_mods eng) name True,
                                 kb_pressed := insert name (kb_pressed eng)\<rparr>
                        else eng\<lparr>kill := False,
                                 kb_mods := update_kb_mods (kb_mods eng) name True\<rparr>)
              in Inr (e2, if capture_mode eng then []
                          else first_match_dispatch (kb_matches e2 name) e2, True)))"
proof (intro conjI impI)
  show "fst act_emergency =
     SetKill True # map KeyUp [''W'', ''A'', ''S'', ''D'', ''Q'', ''E'', ''I'', ''LShift'']
       @ [MouseRight False, Beep False, Sleep 150, SetKill False]"
    using emergency_trace by (simp add: all_keys_def)
  show "snd act_emergency = None"
    by (simp add: act_emergency_def)
  show "held_after (fst act_emergency) h = h - set all_keys"
    by (rule emergency_held)
  show "mouse_after (fst act_emergency) m = False"
    by (rule emergency_mouse)
  show "held_after (release_all_outputs @ release_all_outputs) h = held_after release_all_outputs h"
    by (rule release_idempotent)
  show "pressed_keys (fst (act_stall e1)) \<subseteq> set all_keys"
    by (rule stall_keys)
  show "pressed_keys (fst (act_speedflip e1)) \<subseteq> set all_keys"
    by (rule speedflip_keys)
  show "pressed_keys tr \<subseteq> set all_keys" if "act_straightdash_hold e1 snaps = Some (tr, r)"
    using that by (rule straightdash_keys)
  show "pressed_keys tr \<subseteq> set all_keys" if "act_turningdash_hold e1 snaps = Some (tr, r)"
    using that by (rule turningdash_keys)
  show "run_effects (fst act_emergency) eng = eng\<lparr>kill := False\<rparr>"
    by (rule emergency_state)
  show "on_gamepad_press (run_effects (fst act_emergency) eng) tok =
       (let e2 = eng\<lparr>kill := False, gp_pressed := insert (upper tok) (gp_pressed eng)\<rparr>
        in Inr (e2, if capture_mode eng then []
                    else first_match_dispatch (gp_matches e2 (upper tok)) e2))"
    unfolding emergency_state by (rule after_gp)
  show "on_press (run_effects (fst act_emergency) eng) name =
       (if name = [] then Inr (eng\<lparr>kill := False\<rparr>, [], True)
        else (let e2 = (if name \<notin> MOD_NAMES
                        then eng\<lparr>kill := False,
                                 kb_mods := update_kb_mods (kb_mods eng) name True,
                                 kb_pressed := insert name (kb_pressed eng)\<rparr>
                        else eng\<lparr>kill := False,
                                 kb_mods := update_kb_mods (kb_mods eng) name True\<rparr>)
              in Inr (e2, if capture_mode eng then []
                          else first_match_dispatch (kb_matches e2 name) e2, True)))"
    unfolding emergency_state by (rule after_kb)
qed

theorem hold_loop_cleanup_witness:
  "act_straightdash_hold (MacroEngine DEFAULTS) released_after_one =
     Some ([SetRunning ''straightdash'' True, KeyDown ''W'', KeyDown ''Q'',
            MouseRight True, Sleep 15, MouseRight False, Sleep 25,
            MouseRight True, Sleep 15, MouseRight False, Sleep 1,
            KeyUp ''Q'', KeyUp ''W'', SetRunning ''straightdash'' False], None)
   \<and> pressed_keys [SetRunning ''straightdash'' True, KeyDown ''W'', KeyDown ''Q'',
            MouseRight True, Sleep 15, MouseRight False, Sleep 25,
            MouseRight True, Sleep 15, MouseRight False, Sleep 1,
            KeyUp ''Q'', KeyUp ''W'', SetRunning ''straightdash'' False]
       \<inter> held_after [SetRunning ''straightdash'' True, KeyDown ''W'', KeyDown ''Q'',
            MouseRight True, Sleep 15, MouseRight False, Sleep 25,
            MouseRight True, Sleep 15, MouseRight False, Sleep 1,
            KeyUp ''Q'', KeyUp ''W'', SetRunning ''straightdash'' False] {} = {}
   \<and> act_turningdash_hold negative_click [negative_click\<lparr>kb_pressed := {''N''}\<rparr>] =
     Some ([SetRunning ''turningdash'' True, KeyDown ''W'', KeyDown ''Q'', KeyDown ''D'', Sleep 10,
            KeyUp ''D'', KeyDown ''A'', MouseRight True,
            KeyUp ''A'', KeyUp ''D'', KeyUp ''Q'', KeyUp ''W'',
            SetRunning ''turningdash'' False], Some ValueError)
   \<and> running_hold (run_effects
          [SetRunning ''turningdash'' True, KeyDown ''W'', KeyDown ''Q'', KeyDown ''D'', Sleep 10,
            KeyUp ''D'', KeyDown ''A'', MouseRight True,
            KeyUp ''A'', KeyUp ''D'', KeyUp ''Q'', KeyUp ''W'',
            SetRunning ''turningdash'' False] negative_click) ''turningdash'' = Some False
   \<and> (\<exists>e \<in> set released_after_one. kb_pressed e = {} \<and> gp_pressed e = {})
   \<and> (\<exists>res. act_straightdash_hold (MacroEngine DEFAULTS) released_after_one = Some res)"
proof -
  let ?t1 = "[SetRunning ''straightdash'' True, KeyDown ''W'', KeyDown ''Q'',
            MouseRight True, Sleep 15, MouseRight False, Sleep 25,
            MouseRight True, Sleep 15, MouseRight False, Sleep 1,
            KeyUp ''Q'', KeyUp ''W'', SetRunning ''straightdash'' False]"
  let ?t2 = "[SetRunning ''turningdash'' True, KeyDown ''W'', KeyDown ''Q'', KeyDown ''D'', Sleep 10,
            KeyUp ''D'', KeyDown ''A'', MouseRight True,
            KeyUp ''A'', KeyUp ''D'', KeyUp ''Q'', KeyUp ''W'',
            SetRunning ''turningdash'' False]"
  have s: "act_straightdash_hold (MacroEngine DEFAULTS) released_after_one = Some (?t1, None)"
    by code_simp
  have t: "act_turningdash_hold negative_click [negative_click\<lparr>kb_pressed := {''N''}\<rparr>] =
     Some (?t2, Some ValueError)"
    by code_simp
  have x: "\<exists>e \<in> set released_after_one. kb_pressed e = {} \<and> gp_pressed e = {}"
    by (simp add: released_after_one_def MacroEngine_def)
  note a = hold_loop_cleanup [where eng = "MacroEngine DEFAULTS" and snaps = released_after_one
      and tr = ?t1 and r = None and h = "{}"]
  note b = hold_loop_cleanup [where eng = negative_click
      and snaps = "[negative_click\<lparr>kb_pressed := {''N''}\<rparr>]"
      and tr = ?t2 and r = "Some ValueError" and ?e0.0 = negative_click]
  have 1: "pressed_keys ?t1 \<inter> held_after ?t1 {} = {}"
    using a [THEN conjunct1, rule_format, OF s, THEN conjunct2, THEN conjunct1] .
  have 2: "running_hold (run_effects ?t2 negative_click) ''turningdash'' = Some False"
    using b [THEN conjunct2, THEN conjunct1, rule_format, OF t, THEN conjunct2, THEN conjunct2] .
  have x': "\<exists>e \<in> set released_after_one. kill e \<or> \<not> get_global (state e)
             \<or> \<not> get_feature (state e) ''straightdash'' \<or> (kb_pressed e = {} \<and> gp_pressed e = {})"
    using x by blast
  have 3: "\<exists>res. act_straightdash_hold (MacroEngine DEFAULTS) released_after_one = Some res"
    using a [THEN conjunct2, THEN conjunct2, THEN conjunct1, rule_format, OF x'] .
  show ?thesis
    by (intro conjI) (fact s t x 1 2 3)+
qed

lemma emergency_releases_all_example:
  "act_straightdash_hold (MacroEngine DEFAULTS) released_after_one =
     Some ([SetRunning ''straightdash'' True, KeyDown ''W'', KeyDown ''Q'',
            MouseRight True, Sleep 15, MouseRight False, Sleep 25,
            MouseRight True, Sleep 15, MouseRight False, Sleep 1,
            KeyUp ''Q'', KeyUp ''W'', SetRunning ''straightdash'' False], None)
   \<and> pressed_keys [SetRunning ''straightdash'' True, KeyDown ''W'', KeyDown ''Q'',
            MouseRight True, Sleep 15, MouseRight False, Sleep 25,
            MouseRight True, Sleep 15, MouseRight False, Sleep 1,
            KeyUp ''Q'', KeyUp ''W'', SetRunning ''straightdash'' False] \<subseteq> set all_keys
   \<and> held_after (fst act_emergency) {''W'', ''Q'', ''LShift''} = {}
   \<and> kill (run_effects (fst act_emergency) ((MacroEngine DEFAULTS)\<lparr>kill := True\<rparr>)) = False"
proof -
  let ?t1 = "[SetRunning ''straightdash'' True, KeyDown ''W'', KeyDown ''Q'',
            MouseRight True, Sleep 15, MouseRight False, Sleep 25,
            MouseRight True, Sleep 15, MouseRight False, Sleep 1,
            KeyUp ''Q'', KeyUp ''W'', SetRunning ''straightdash'' False]"
  have s: "act_straightdash_hold (MacroEngine DEFAULTS) released_after_one = Some (?t1, None)"
    by code_simp
  note a = emergency_releases_all [where ?e1.0 = "MacroEngine DEFAULTS" and snaps = released_after_one
      and tr = ?t1 and r = None and h = "{''W'', ''Q'', ''LShift''}"
      and eng = "(MacroEngine DEFAULTS)\<lparr>kill := True\<rparr>"]
  have 1: "pressed_keys ?t1 \<subseteq> set all_keys"
    using a [THEN conjunct2, THEN conjunct2, THEN conjunct2, THEN conjunct2, THEN conjunct2,
             THEN conjunct2, THEN conjunct2, THEN conjunct1, rule_format, OF s] .
  have "held_after (fst act_emergency) {''W'', ''Q'', ''LShift''}
       = {''W'', ''Q'', ''LShift''} - set all_keys"
    using a [THEN conjunct2, THEN conjunct2, THEN conjunct1] .
  also have "\<dots> = {}"
    by code_simp
  finally have 2: "held_after (fst act_emergency) {''W'', ''Q'', ''LShift''} = {}" .
  have "run_effects (fst act_emergency) ((MacroEngine DEFAULTS)\<lparr>kill := True\<rparr>)
      = (MacroEngine DEFAULTS)\<lparr>kill := True\<rparr>\<lparr>kill := False\<rparr>"
    using a [THEN conjunct2, THEN conjunct2, THEN conjunct2, THEN conjunct2, THEN conjunct2,
             THEN conjunct2, THEN conjunct2, THEN conjunct2, THEN conjunct2, THEN conjunct1] .
  then have 3: "kill (run_effects (fst act_emergency) ((MacroEngine DEFAULTS)\<lparr>kill := True\<rparr>)) = False"
    by simp
  show ?thesis
    by (intro conjI) (fact s 1 2 3)+
qed

text \<open>
  C8 does not hold of the code for the keyboard. While the kill flag is set, \<open>_on_press\<close>
  returns \<open>False\<close>, which stops the keyboard listener, and nothing starts it again. After a
  key press during the sweep, the beep or the sleep of Emergency, the kill flag is cleared
  but the press of a bound key starts nothing; without such a press it starts its action.
  \<open>on_gamepad_press\<close> returns nothing under the same test, and controller triggers do
  start their action again.
\<close>

theorem key_press_during_emergency_stops_keyboard:
  "emergency_sweep @ emergency_rest = fst act_emergency
   \<and> kill (run_effects emergency_sweep (MacroEngine DEFAULTS))
   \<and> (case deliver_all (MacroEngine DEFAULTS, True)
           [MacroEffects emergency_sweep, KeyPress ''W'', MacroEffects emergency_rest,
            KeyPress ''F''] of
      Inl e \<Rightarrow> False
    | Inr ((eng, running), ds) \<Rightarrow> ds = [] \<and> \<not> running \<and> \<not> kill eng)
   \<and> (case deliver_all (MacroEngine DEFAULTS, True)
           [MacroEffects emergency_sweep, MacroEffects emergency_rest, KeyPress ''F''] of
      Inl e \<Rightarrow> False
    | Inr ((eng, running), ds) \<Rightarrow> ds = [''stall''] \<and> running \<and> \<not> kill eng)
   \<and> (case deliver_all (pad_bindings, True)
           [MacroEffects emergency_sweep, PadPress ''GP:B'', MacroEffects emergency_rest,
            PadPress ''GP:B''] of
      Inl e \<Rightarrow> False
    | Inr ((eng, running), ds) \<Rightarrow> ds = [''stall''] \<and> running \<and> \<not> kill eng)"
  by code_simp

section \<open>Gating by the global and feature flags\<close>

lemma exempt_not_hold:
  "a \<in> {''toggle_all'', ''emergency'', ''exit''} \<Longrightarrow> a \<notin> {''straightdash'', ''turningdash''}"
  by auto

lemma exempt_not_gated:
  assumes "a \<in> {''toggle_all'', ''emergency'', ''exit''}"
  shows "\<not> gated eng a"
  using assms exempt_not_hold [OF assms] unfolding gated_def by blast

lemma kb_matches_global:
  "kb_matches (eng\<lparr>state := (state eng)\<lparr>global_enabled := g\<rparr>\<rparr>) name = kb_matches eng name"
  by (auto simp: kb_matches_def fun_eq_iff get_hotkey_def split: sum.splits)

lemma gp_matches_global:
  "gp_matches (eng\<lparr>state := (state eng)\<lparr>global_enabled := g\<rparr>\<rparr>) tok = gp_matches eng tok"
  by (simp add: gp_matches_def fun_eq_iff get_hotkey_def)

lemma first_match_dispatch_open:
  "find P actions = Some a \<Longrightarrow> \<not> gated eng a \<Longrightarrow> first_match_dispatch P eng = [a]"
  by (simp add: first_match_dispatch_def)

lemma global_off_gated:
  "a \<notin> {''toggle_all'', ''emergency'', ''exit''} \<Longrightarrow> \<not> get_global (state eng) \<Longrightarrow> gated eng a"
  unfolding gated_def by blast

lemma hold_loop_flag_off:
  "\<not> get_global (state e) \<or> \<not> get_feature (state e) f \<Longrightarrow>
   hold_loop f cycle kind key (e # es) = Some ([], None)"
  by auto

lemma straightdash_body_flag_off:
  assumes "\<not> get_global (state e) \<or> \<not> get_feature (state e) ''straightdash''"
    and "straightdash_body eng (e # es) = Some (b, r)"
  shows "b = []"
  using assms(2) hold_loop_flag_off [OF assms(1)]
  by (auto simp: straightdash_body_def split: sum.splits prod.splits)

lemma turningdash_body_flag_off:
  assumes "\<not> get_global (state e) \<or> \<not> get_feature (state e) ''turningdash''"
    and "turningdash_body eng (e # es) = Some (b, r)"
  shows "b = []"
  using assms(2) hold_loop_flag_off [OF assms(1)]
  by (auto simp: turningdash_body_def split: sum.splits prod.splits)


text \<open>
  C4, as amended. When the first matching action is toggle_all, emergency or exit, it is
  started whatever the global-enable flag. Any other action is never started while the
  global-enable flag is off. The feature flag is read by the action itself: stall and
  speedflip return without any effect when the global-enable flag or their feature flag
  is off, and a hold action whose first iteration reads one of its flags off presses
  nothing: its trace is the registry write, the key-ups of its \<open>finally\<close> block and the
  registry reset.
\<close>

theorem gating_by_flags:
  "(a \<in> {''toggle_all'', ''emergency'', ''exit''} \<and> \<not> capture_mode eng
      \<and> find (kb_matches eng name) actions = Some a
      \<longrightarrow> maybe_trigger_kb (eng\<lparr>state := (state eng)\<lparr>global_enabled := g\<rparr>\<rparr>) name = Inr [a])
   \<and> (a \<in> {''toggle_all'', ''emergency'', ''exit''} \<and> \<not> capture_mode eng
      \<and> find (gp_matches eng tok) actions = Some a
      \<longrightarrow> maybe_trigger_gp (eng\<lparr>state := (state eng)\<lparr>global_enabled := g\<rparr>\<rparr>) tok = Inr [a])
   \<and> (a \<notin> {''toggle_all'', ''emergency'', ''exit''} \<and> \<not> get_global (state eng)
      \<longrightarrow> (\<exists>ds. maybe_trigger_kb eng name = Inr ds \<and> a \<notin> set ds)
        \<and> (\<exists>ds. maybe_trigger_gp eng tok = Inr ds \<and> a \<notin> set ds))
   \<and> (\<not> get_global (state eng) \<or> \<not> get_feature (state eng) ''stall''
      \<longrightarrow> act_stall eng = ([], None))
   \<and> (\<not> get_global (state eng) \<or> \<not> get_feature (state eng) ''speedflip''
      \<longrightarrow> act_speedflip eng = ([], None))
   \<and> ((\<not> get_global (state e) \<or> \<not> get_feature (state e) ''straightdash'')
        \<and> act_straightdash_hold eng (e # es) = Some (tr, r)
      \<longrightarrow> tr = [SetRunning ''straightdash'' True, KeyUp ''Q'', KeyUp ''W'',
                SetRunning ''straightdash'' False])
   \<and> ((\<not> get_global (state e) \<or> \<not> get_feature (state e) ''turningdash'')
        \<and> act_turningdash_hold eng (e # es) = Some (tr, r)
      \<longrightarrow> tr = [SetRunning ''turningdash'' True, KeyUp ''A'', KeyUp ''D'', KeyUp ''Q'', KeyUp ''W'',
                SetRunning ''turningdash'' False])"
proof (intro conjI impI)
  let ?eng = "eng\<lparr>state := (state eng)\<lparr>global_enabled := g\<rparr>\<rparr>"
  assume h: "a \<in> {''toggle_all'', ''emergency'', ''exit''} \<and> \<not> capture_mode eng
      \<and> find (kb_matches eng name) actions = Some a"
  then have "find (kb_matches ?eng name) actions = Some a"
    by (simp only: kb_matches_global)
  moreover have "\<not> gated ?eng a"
    using h exempt_not_gated by blast
  ultimately have "first_match_dispatch (kb_matches ?eng name) ?eng = [a]"
    by (rule first_match_dispatch_open)
  moreover have "\<not> capture_mode ?eng"
    using h by simp
  ultimately show "maybe_trigger_kb ?eng name = Inr [a]"
    by (simp only: maybe_trigger_kb_eq if_False)
next
  let ?eng = "eng\<lparr>state := (state eng)\<lparr>global_enabled := g\<rparr>\<rparr>"
  assume h: "a \<in> {''toggle_all'', ''emergency'', ''exit''} \<and> \<not> capture_mode eng
      \<and> find (gp_matches eng tok) actions = Some a"
  then have "find (gp_matches ?eng tok) actions = Some a"
    by (simp only: gp_matches_global)
  moreover have "\<not> gated ?eng a"
    using h exempt_not_gated by blast
  ultimately have "first_match_dispatch (gp_matches ?eng tok) ?eng = [a]"
    by (rule first_match_dispatch_open)
  moreover have "\<not> capture_mode ?eng"
    using h by simp
  ultimately show "maybe_trigger_gp ?eng tok = Inr [a]"
    by (simp only: maybe_trigger_gp_eq if_False)
next
  assume h: "a \<notin> {''toggle_all'', ''emergency'', ''exit''} \<and> \<not> get_global (state eng)"
  then have g: "gated eng a"
    using global_off_gated by blast
  show "\<exists>ds. maybe_trigger_kb eng name = Inr ds \<and> a \<notin> set ds"
    using gated_blocks [OF g, of "kb_matches eng name"] by (simp add: maybe_trigger_kb_eq)
  show "\<exists>ds. maybe_trigger_gp eng tok = Inr ds \<and> a \<notin> set ds"
    using gated_blocks [OF g, of "gp_matches eng tok"] by (simp add: maybe_trigger_gp_eq)
next
  assume "\<not> get_global (state eng) \<or> \<not> get_feature (state eng) ''stall''"
  then show "act_stall eng = ([], None)"
    by (auto simp: act_stall_def)
next
  assume "\<not> get_global (state eng) \<or> \<not> get_feature (state eng) ''speedflip''"
  then show "act_speedflip eng = ([], None)"
    by (auto simp: act_speedflip_def)
next
  assume h: "(\<not> get_global (state e) \<or> \<not> get_feature (state e) ''straightdash'')
        \<and> act_straightdash_hold eng (e # es) = Some (tr, r)"
  then obtain b where b: "straightdash_body eng (e # es) = Some (b, r)"
    and tr: "tr = SetRunning ''straightdash'' True # b @ map KeyUp [''Q'', ''W'']
          @ [SetRunning ''straightdash'' False]"
    using straightdash_shape by blast
  from h b have "b = []"
    using straightdash_body_flag_off by blast
  with tr show "tr = [SetRunning ''straightdash'' True, KeyUp ''Q'', KeyUp ''W'',
                SetRunning ''straightdash'' False]"
    by simp
next
  assume h: "(\<not> get_global (state e) \<or> \<not> get_feature (state e) ''turningdash'')
        \<and> act_turningdash_hold eng (e # es) = Some (tr, r)"
  then obtain b where b: "turningdash_body eng (e # es) = Some (b, r)"
    and tr: "tr = SetRunning ''turningdash'' True # b @ map KeyUp [''A'', ''D'', ''Q'', ''W'']
          @ [SetRunning ''turningdash'' False]"
    using turningdash_shape by blast
  from h b have "b = []"
    using turningdash_body_flag_off by blast
  with tr show "tr = [SetRunning ''turningdash'' True, KeyUp ''A'', KeyUp ''D'', KeyUp ''Q'', KeyUp ''W'',
                SetRunning ''turningdash'' False]"
    by simp
qed


text \<open>
  C4, as stated, fails for the hold actions: with the global flag on and the straight-dash
  feature off, a press of its trigger starts the action, and the action sends two key-ups.
\<close>

theorem gating_counterexample:
  "\<not> get_feature (state feature_off) ''straightdash''
   \<and> get_global (state feature_off)
   \<and> maybe_trigger_kb feature_off ''V'' = Inr [''straightdash'']
   \<and> act_straightdash_hold feature_off [feature_off\<lparr>kb_pressed := {''V''}\<rparr>] =
       Some ([SetRunning ''straightdash'' True, KeyUp ''Q'', KeyUp ''W'',
              SetRunning ''straightdash'' False], None)
   \<and> \<not> silent [SetRunning ''straightdash'' True, KeyUp ''Q'', KeyUp ''W'',
                 SetRunning ''straightdash'' False]"
proof (intro conjI)
  show "\<not> get_feature (state feature_off) ''straightdash''"
    by code_simp
  show "get_global (state feature_off)"
    by code_simp
  show "maybe_trigger_kb feature_off ''V'' = Inr [''straightdash'']"
    by code_simp
  show "act_straightdash_hold feature_off [feature_off\<lparr>kb_pressed := {''V''}\<rparr>] =
       Some ([SetRunning ''straightdash'' True, KeyUp ''Q'', KeyUp ''W'',
              SetRunning ''straightdash'' False], None)"
    by code_simp
  show "\<not> silent [SetRunning ''straightdash'' True, KeyUp ''Q'', KeyUp ''W'',
                 SetRunning ''straightdash'' False]"
    by (simp add: silent_def)
qed

theorem gating_by_flags_witness:
  "find (kb_matches (MacroEngine DEFAULTS) ''L'') actions = Some ''emergency''
   \<and> maybe_trigger_kb global_off ''L'' = Inr [''emergency'']
   \<and> \<not> get_global (state global_off)
   \<and> (\<exists>ds. maybe_trigger_kb global_off ''F'' = Inr ds \<and> ''stall'' \<notin> set ds)
   \<and> act_stall global_off = ([], None)
   \<and> act_speedflip global_off = ([], None)
   \<and> \<not> get_feature (state feature_off) ''straightdash''
   \<and> (\<exists>r. act_straightdash_hold feature_off [feature_off\<lparr>kb_pressed := {''V''}\<rparr>] =
       Some ([SetRunning ''straightdash'' True, KeyUp ''Q'', KeyUp ''W'',
              SetRunning ''straightdash'' False], r))"
proof -
  let ?e0 = "MacroEngine DEFAULTS"
  have off: "?e0\<lparr>state := (state ?e0)\<lparr>global_enabled := Some False\<rparr>\<rparr> = global_off"
    by (simp add: global_off_def MacroEngine_def)
  have 1: "find (kb_matches ?e0 ''L'') actions = Some ''emergency''"
    by code_simp
  have ex: "''emergency'' \<in> {''toggle_all'', ''emergency'', ''exit''}"
    by simp
  have nc: "\<not> capture_mode ?e0"
    by (simp add: MacroEngine_def)
  note a = gating_by_flags [where a = "''emergency''" and eng = ?e0 and name = "''L''"
      and g = "Some False", THEN conjunct1, rule_format, OF conjI [OF ex conjI [OF nc 1]]]
  have 2: "maybe_trigger_kb global_off ''L'' = Inr [''emergency'']"
    using a unfolding off .
  have 3: "\<not> get_global (state global_off)"
    by code_simp
  have ns: "''stall'' \<notin> {''toggle_all'', ''emergency'', ''exit''}"
    by simp
  note b = gating_by_flags [where a = "''stall''" and eng = global_off and name = "''F''"]
  have 4: "\<exists>ds. maybe_trigger_kb global_off ''F'' = Inr ds \<and> ''stall'' \<notin> set ds"
    using b [THEN conjunct2, THEN conjunct2, THEN conjunct1, rule_format,
             OF conjI [OF ns 3], THEN conjunct1] .
  have 5: "act_stall global_off = ([], None)"
    using b [THEN conjunct2, THEN conjunct2, THEN conjunct2, THEN conjunct1, rule_format,
             OF disjI1 [OF 3]] .
  have 6: "act_speedflip global_off = ([], None)"
    using b [THEN conjunct2, THEN conjunct2, THEN conjunct2, THEN conjunct2, THEN conjunct1,
             rule_format, OF disjI1 [OF 3]] .
  have 7: "\<not> get_feature (state feature_off) ''straightdash''"
    by code_simp
  have fo: "\<not> get_feature (state (feature_off\<lparr>kb_pressed := {''V''}\<rparr>)) ''straightdash''"
    using 7 by simp
  have "\<exists>res. act_straightdash_hold feature_off [feature_off\<lparr>kb_pressed := {''V''}\<rparr>] = Some res"
    using fo by (intro straightdash_terminates) simp
  then obtain tr r where r: "act_straightdash_hold feature_off [feature_off\<lparr>kb_pressed := {''V''}\<rparr>]
       = Some (tr, r)"
    by auto
  note c = gating_by_flags [where eng = feature_off and e = "feature_off\<lparr>kb_pressed := {''V''}\<rparr>"
      and es = "[]" and tr = tr and r = r]
  have "tr = [SetRunning ''straightdash'' True, KeyUp ''Q'', KeyUp ''W'',
              SetRunning ''straightdash'' False]"
    using c [THEN conjunct2, THEN conjunct2, THEN conjunct2, THEN conjunct2, THEN conjunct2,
             THEN conjunct1, rule_format, OF conjI [OF disjI2 [OF fo] r]] .
  with r have 8: "\<exists>r. act_straightdash_hold feature_off [feature_off\<lparr>kb_pressed := {''V''}\<rparr>] =
       Some ([SetRunning ''straightdash'' True, KeyUp ''Q'', KeyUp ''W'',
              SetRunning ''straightdash'' False], r)"
    by auto
  show ?thesis
    by (intro conjI) (fact 1 2 3 4 5 6 7 8)+
qed

section \<open>Text lemmas: case, white space, splitting and joining\<close>

lemma isspace_upper_char: "isspace (upper_char c) = isspace c"
  by (auto simp: isspace_def upper_char_def Let_def)

lemma upper_char_idem: "upper_char (upper_char c) = upper_char c"
  by (auto simp: upper_char_def Let_def)

lemma upper_idem: "upper (upper s) = upper s"
  by (simp add: upper_def upper_char_idem)

lemma upper_Nil_iff: "upper s = [] \<longleftrightarrow> s = []"
  by (simp add: upper_def)

lemma upper_char_plus: "upper_char c = CHR ''+'' \<Longrightarrow> c = CHR ''+''"
  by (auto simp: char_eq_code [of _ "CHR ''+''"] of_char_upper_char split: if_splits)

lemma upper_char_minus: "upper_char c = CHR ''-'' \<Longrightarrow> c = CHR ''-''"
  by (auto simp: char_eq_code [of _ "CHR ''-''"] of_char_upper_char split: if_splits)

lemma upper_keeps_plus:
  assumes "CHR ''+'' \<notin> set s"
  shows "CHR ''+'' \<notin> set (upper s)"
proof
  assume "CHR ''+'' \<in> set (upper s)"
  then obtain c where "c \<in> set s" "upper_char c = CHR ''+''"
    by (auto simp: upper_def)
  with assms show False
    using upper_char_plus by blast
qed

lemma upper_keeps_minus:
  assumes "CHR ''-'' \<notin> set s"
  shows "CHR ''-'' \<notin> set (upper s)"
proof
  assume "CHR ''-'' \<in> set (upper s)"
  then obtain c where "c \<in> set s" "upper_char c = CHR ''-''"
    by (auto simp: upper_def)
  with assms show False
    using upper_char_minus by blast
qed

lemma dropWhile_isspace_upper: "dropWhile isspace (upper s) = upper (dropWhile isspace s)"
  by (induction s) (simp_all add: upper_def isspace_upper_char)

lemma rev_upper: "rev (upper t) = upper (rev t)"
  by (simp add: upper_def rev_map)

lemma strip_upper: "strip (upper s) = upper (strip s)"
  by (simp only: strip_def dropWhile_isspace_upper rev_upper)

lemma dropWhile_fixed: "xs = [] \<or> \<not> P (hd xs) \<Longrightarrow> dropWhile P xs = xs"
  by (cases xs) auto

lemma strip_fixed:
  assumes "s = [] \<or> (\<not> isspace (hd s) \<and> \<not> isspace (last s))"
  shows "strip s = s"
proof (cases "s = []")
  case True
  then show ?thesis by (simp add: strip_def)
next
  case False
  with assms have h: "\<not> isspace (hd s)" and l: "\<not> isspace (last s)" by auto
  have 1: "dropWhile isspace s = s"
    using h by (intro dropWhile_fixed) simp
  have "hd (rev s) = last s"
    using False by (simp add: hd_rev)
  then have 2: "dropWhile isspace (rev s) = rev s"
    using l by (intro dropWhile_fixed) simp
  show ?thesis
    unfolding strip_def 1 2 by simp
qed

lemma strip_ends:
  assumes "strip s \<noteq> []"
  shows "\<not> isspace (hd (strip s)) \<and> \<not> isspace (last (strip s))"
proof -
  define t where "t = dropWhile isspace s"
  define u where "u = dropWhile isspace (rev t)"
  have s: "strip s = rev u"
    by (simp add: strip_def t_def u_def)
  with assms have u: "u \<noteq> []" by simp
  then have lu: "\<not> isspace (hd u)"
    unfolding u_def by (rule hd_dropWhile)
  have "rev t = takeWhile isspace (rev t) @ u"
    by (simp add: u_def)
  then have "t = rev u @ rev (takeWhile isspace (rev t))"
    by (metis rev_append rev_rev_ident)
  then have "hd t = hd (rev u)"
    using u by (metis hd_append2 rev_is_Nil_conv)
  moreover have "t \<noteq> []"
    using u u_def by auto
  then have "\<not> isspace (hd t)"
    unfolding t_def by (rule hd_dropWhile)
  ultimately have "\<not> isspace (hd (rev u))" by simp
  moreover have "last (rev u) = hd u"
    using u by (simp add: last_rev)
  ultimately show ?thesis
    using lu s by simp
qed

lemma strip_strip: "strip (strip s) = strip s"
  using strip_ends [of s] by (intro strip_fixed) blast

lemma strip_fixed_ends:
  "strip k = k \<Longrightarrow> k \<noteq> [] \<Longrightarrow> \<not> isspace (hd k) \<and> \<not> isspace (last k)"
  using strip_ends [of k] by simp

lemma split_on_nonempty: "split_on c s \<noteq> []"
  by (induction s) (auto split: list.splits)

lemma split_on_pieces: "w \<in> set (split_on c s) \<Longrightarrow> c \<notin> set w \<and> set w \<subseteq> set s"
proof (induction s arbitrary: w)
  case Nil
  then show ?case by simp
next
  case (Cons x s)
  show ?case
  proof (cases "x = c")
    case True
    with Cons show ?thesis by auto
  next
    case False
    obtain v vs where v: "split_on c s = v # vs"
      using split_on_nonempty [of c s] by (cases "split_on c s") auto
    with False Cons.prems have "w = x # v \<or> w \<in> set vs"
      by auto
    then show ?thesis
    proof
      assume "w = x # v"
      moreover have "c \<notin> set v \<and> set v \<subseteq> set s"
        using Cons.IH [of v] v by simp
      ultimately show ?thesis using False by auto
    next
      assume "w \<in> set vs"
      then have "c \<notin> set w \<and> set w \<subseteq> set s"
        using Cons.IH [of w] v by simp
      then show ?thesis by auto
    qed
  qed
qed

lemma split_on_single: "c \<notin> set x \<Longrightarrow> split_on c x = [x]"
  by (induction x) auto

lemma split_on_cut: "c \<notin> set x \<Longrightarrow> split_on c (x @ c # rest) = x # split_on c rest"
  by (induction x) auto

lemma split_join:
  "xs \<noteq> [] \<Longrightarrow> \<forall>x \<in> set xs. c \<notin> set x \<Longrightarrow> split_on c (join [c] xs) = xs"
proof (induction "[c]" xs rule: join.induct)
  case 1
  then show ?case by simp
next
  case (2 x)
  then show ?case by (simp add: split_on_single)
next
  case (3 x y ys)
  then show ?case by (simp add: split_on_cut)
qed

lemma replace_char_absent: "a \<notin> set s \<Longrightarrow> replace_char a b s = s"
  by (induction s) (auto simp: replace_char_def)

lemma replace_char_removes: "a \<noteq> b \<Longrightarrow> a \<notin> set (replace_char a b s)"
  by (auto simp: replace_char_def)

lemma set_join: "set (join sep xs) \<subseteq> (\<Union>x \<in> set xs. set x) \<union> set sep"
  by (induction sep xs rule: join.induct) auto

lemma hotkey_parts_props:
  assumes "p \<in> set (hotkey_parts s)"
  shows "p \<noteq> []" "upper p = p" "strip p = p" "CHR ''+'' \<notin> set p" "CHR ''-'' \<notin> set p"
proof -
  let ?r = "replace_char CHR ''-'' CHR ''+'' s"
  from assms obtain t where t: "t \<in> set (split_on CHR ''+'' ?r)" "strip t \<noteq> []"
      and p: "p = upper (strip t)"
    by (auto simp: hotkey_parts_def)
  show "p \<noteq> []"
    using t p by (simp add: upper_Nil_iff)
  show "upper p = p"
    unfolding p by (rule upper_idem)
  show "strip p = p"
    unfolding p by (simp only: strip_upper strip_strip)
  have pl: "CHR ''+'' \<notin> set t" and sub: "set t \<subseteq> set ?r"
    using split_on_pieces [OF t(1)] by auto
  have "CHR ''-'' \<notin> set ?r"
    by (rule replace_char_removes) simp
  with sub have mi: "CHR ''-'' \<notin> set t" by auto
  have st: "CHR ''+'' \<notin> set (strip t)" "CHR ''-'' \<notin> set (strip t)"
    using pl mi set_strip [of t] by auto
  show "CHR ''+'' \<notin> set p"
    unfolding p using st(1) by (rule upper_keeps_plus)
  show "CHR ''-'' \<notin> set p"
    unfolding p using st(2) by (rule upper_keeps_minus)
qed

lemma hotkey_parts_Nil: "hotkey_parts [] = []"
  by (simp add: hotkey_parts_def replace_char_def strip_def)

lemma option_if_chain:
  "(case (if A then Some a else if B then Some b else if C then Some c
          else if D then Some d else None) of
      Some m \<Rightarrow> f m | None \<Rightarrow> g) =
   (if A then f a else if B then f b else if C then f c else if D then f d else g)"
  by simp

lemma classify_modifier_of:
  "classify p (M, k) = (case modifier_of p of Some m \<Rightarrow> (insert m M, k) | None \<Rightarrow> (M, p))"
  by (simp only: classify_def modifier_of_def Let_def prod.case option_if_chain)

lemma named_modifiers_Nil: "named_modifiers [] = {}"
  by (simp add: named_modifiers_def map_filter_simps)

lemma named_modifiers_Cons:
  "named_modifiers (p # ps) =
     (case modifier_of p of Some m \<Rightarrow> insert m (named_modifiers ps) | None \<Rightarrow> named_modifiers ps)"
  by (simp add: named_modifiers_def map_filter_simps split: option.splits)

lemma named_modifiers_append:
  "named_modifiers (ps @ qs) = named_modifiers ps \<union> named_modifiers qs"
  by (induction ps) (auto simp: named_modifiers_Nil named_modifiers_Cons split: option.splits)

lemma fold_classify:
  "fold classify ps (M, k) =
     (M \<union> named_modifiers ps,
      if filter (\<lambda>p. modifier_of p = None) ps = [] then k
      else last (filter (\<lambda>p. modifier_of p = None) ps))"
proof (induction ps arbitrary: M k)
  case Nil
  show ?case by (simp add: named_modifiers_Nil)
next
  case (Cons p ps)
  show ?case
  proof (cases "modifier_of p")
    case None
    then show ?thesis
      by (simp add: classify_modifier_of Cons.IH named_modifiers_Cons)
  next
    case (Some m)
    then show ?thesis
      by (simp add: classify_modifier_of Cons.IH named_modifiers_Cons)
  qed
qed

lemma gamepad_strip: "is_gamepad_hotkey (strip s) = is_gamepad_hotkey s"
  by (simp add: is_gamepad_hotkey_def strip_strip)

lemma parse_hotkey_kb:
  assumes "strip s \<noteq> []" "\<not> is_gamepad_hotkey s"
  shows "parse_hotkey s =
     Inr (''kb'', named_modifiers (hotkey_parts (strip s)),
          if filter (\<lambda>p. modifier_of p = None) (hotkey_parts (strip s)) \<noteq> []
          then last (filter (\<lambda>p. modifier_of p = None) (hotkey_parts (strip s)))
          else if hotkey_parts (strip s) \<noteq> [] then last (hotkey_parts (strip s)) else [])"
proof -
  let ?ps = "hotkey_parts (strip s)"
  let ?ns = "filter (\<lambda>p. modifier_of p = None) ?ps"
  have f: "fold classify ?ps ({}, []) = (named_modifiers ?ps, if ?ns = [] then [] else last ?ns)"
    by (simp add: fold_classify)
  have ne: "last ?ns \<noteq> []" if "?ns \<noteq> []"
  proof -
    from that have "last ?ns \<in> set ?ns" by (rule last_in_set)
    then have "last ?ns \<in> set ?ps" by simp
    then show ?thesis by (rule hotkey_parts_props)
  qed
  show ?thesis
  proof (cases "?ns = []")
    case True
    with assms f show ?thesis
      by (simp add: parse_hotkey_def gamepad_strip Let_def)
  next
    case False
    with assms f ne show ?thesis
      by (simp add: parse_hotkey_def gamepad_strip Let_def)
  qed
qed

section \<open>Bindings made of modifier names only\<close>

text \<open>
  C10. For an input that is not of the controller form and whose tokens (at least one)
  are all modifier names, \<open>parse_hotkey\<close> returns a keyboard trigger whose modifier set
  holds the modifier named by every token and whose symbol is the last token, which is not
  empty; with these modifiers held, the trigger matches a press of that symbol.
\<close>

theorem modifier_only_binding:
  assumes "\<not> is_gamepad_hotkey s"
    and "hotkey_parts (strip s) \<noteq> []"
    and "\<forall>p \<in> set (hotkey_parts (strip s)). modifier_of p \<noteq> None"
  shows "parse_hotkey s =
           Inr (''kb'', named_modifiers (hotkey_parts (strip s)), last (hotkey_parts (strip s)))
       \<and> last (hotkey_parts (strip s)) \<noteq> []
       \<and> (\<forall>p \<in> set (hotkey_parts (strip s)).
             \<exists>m. modifier_of p = Some m \<and> m \<in> named_modifiers (hotkey_parts (strip s)))
       \<and> (get_hotkey (state eng) a [] = s
            \<and> named_modifiers (hotkey_parts (strip s)) \<subseteq> kb_mods eng
          \<longrightarrow> kb_matches eng (last (hotkey_parts (strip s))) a)"
proof -
  let ?ps = "hotkey_parts (strip s)"
  have s: "strip s \<noteq> []"
    using assms(2) hotkey_parts_Nil by auto
  have ns: "filter (\<lambda>p. modifier_of p = None) ?ps = []"
    using assms(3) by (simp add: filter_empty_conv)
  have 1: "parse_hotkey s = Inr (''kb'', named_modifiers ?ps, last ?ps)"
    using parse_hotkey_kb [OF s assms(1)] ns assms(2) by simp
  have "last ?ps \<in> set ?ps"
    using assms(2) by (rule last_in_set)
  then have 2: "last ?ps \<noteq> []"
    by (rule hotkey_parts_props)
  have 3: "\<forall>p \<in> set ?ps. \<exists>m. modifier_of p = Some m \<and> m \<in> named_modifiers ?ps"
  proof
    fix p assume p: "p \<in> set ?ps"
    with assms(3) obtain m where m: "modifier_of p = Some m" by auto
    with p have "m \<in> named_modifiers ?ps"
      by (force simp: named_modifiers_def map_filter_def)
    with m show "\<exists>m. modifier_of p = Some m \<and> m \<in> named_modifiers ?ps" by blast
  qed
  have 4: "kb_matches eng (last ?ps) a"
    if "get_hotkey (state eng) a [] = s \<and> named_modifiers ?ps \<subseteq> kb_mods eng"
    using that 1 2 by (simp add: kb_matches_def)
  from 1 2 3 4 show ?thesis by blast
qed

theorem modifier_only_binding_witness:
  "\<not> is_gamepad_hotkey ''Ctrl+Shift''
   \<and> hotkey_parts (strip ''Ctrl+Shift'') = [''CTRL'', ''SHIFT'']
   \<and> modifier_of ''CTRL'' = Some ''CTRL'' \<and> modifier_of ''SHIFT'' = Some ''SHIFT''
   \<and> parse_hotkey ''Ctrl+Shift'' = Inr (''kb'', {''CTRL'', ''SHIFT''}, ''SHIFT'')
   \<and> (case on_press modifier_binding ''SHIFT'' of
         Inl e \<Rightarrow> False
       | Inr (e, ds, l) \<Rightarrow> ds = [''stall''] \<and> kb_mods e = {''CTRL'', ''SHIFT''})
   \<and> \<not> is_gamepad_hotkey (''shift+'' @ [CHR 0xA0])
   \<and> hotkey_parts (strip (''shift+'' @ [CHR 0xA0])) = [''SHIFT'']
   \<and> parse_hotkey (''shift+'' @ [CHR 0xA0]) = Inr (''kb'', {''SHIFT''}, ''SHIFT'')"
proof -
  have g: "\<not> is_gamepad_hotkey ''Ctrl+Shift''"
    by code_simp
  have ps: "hotkey_parts (strip ''Ctrl+Shift'') = [''CTRL'', ''SHIFT'']"
    by code_simp
  have m: "modifier_of ''CTRL'' = Some ''CTRL''" "modifier_of ''SHIFT'' = Some ''SHIFT''"
    by code_simp+
  have ne: "hotkey_parts (strip ''Ctrl+Shift'') \<noteq> []"
    unfolding ps by simp
  have al: "\<forall>p \<in> set (hotkey_parts (strip ''Ctrl+Shift'')). modifier_of p \<noteq> None"
    unfolding ps using m by simp
  have nm: "named_modifiers [''CTRL'', ''SHIFT''] = {''CTRL'', ''SHIFT''}"
    by code_simp
  note t = modifier_only_binding [OF g ne al, unfolded ps nm, THEN conjunct1]
  have 1: "parse_hotkey ''Ctrl+Shift'' = Inr (''kb'', {''CTRL'', ''SHIFT''}, ''SHIFT'')"
    using t by simp
  have 2: "case on_press modifier_binding ''SHIFT'' of
         Inl e \<Rightarrow> False
       | Inr (e, ds, l) \<Rightarrow> ds = [''stall''] \<and> kb_mods e = {''CTRL'', ''SHIFT''}"
    by code_simp
  have g': "\<not> is_gamepad_hotkey (''shift+'' @ [CHR 0xA0])"
    by code_simp
  have ps': "hotkey_parts (strip (''shift+'' @ [CHR 0xA0])) = [''SHIFT'']"
    by code_simp
  have ne': "hotkey_parts (strip (''shift+'' @ [CHR 0xA0])) \<noteq> []"
    unfolding ps' by simp
  have al': "\<forall>p \<in> set (hotkey_parts (strip (''shift+'' @ [CHR 0xA0]))). modifier_of p \<noteq> None"
    unfolding ps' using m by simp
  have nm': "named_modifiers [''SHIFT''] = {''SHIFT''}"
    by code_simp
  note t' = modifier_only_binding [OF g' ne' al', unfolded ps' nm', THEN conjunct1]
  have 3: "parse_hotkey (''shift+'' @ [CHR 0xA0]) = Inr (''kb'', {''SHIFT''}, ''SHIFT'')"
    using t' by simp
  show ?thesis
    by (intro conjI) (fact g ps m 1 2 g' ps' 3)+
qed

section \<open>Formatting and parsing again\<close>

lemma labels_upper:
  "upper ''Ctrl'' = ''CTRL''" "upper ''Alt'' = ''ALT''" "upper ''Shift'' = ''SHIFT''"
  "upper ''Win'' = ''WIN''"
  by code_simp+

lemma labels_modifier:
  "modifier_of ''CTRL'' = Some ''CTRL''" "modifier_of ''ALT'' = Some ''ALT''"
  "modifier_of ''SHIFT'' = Some ''SHIFT''" "modifier_of ''WIN'' = Some ''WIN''"
  by code_simp+

lemma labels_clean:
  "list_all (\<lambda>x. x \<noteq> [] \<and> strip x = x \<and> CHR ''+'' \<notin> set x \<and> CHR ''-'' \<notin> set x)
     [''Ctrl'', ''Alt'', ''Shift'', ''Win'']"
  by code_simp

lemma modifier_of_range:
  "modifier_of p = Some m \<Longrightarrow> m \<in> {''CTRL'', ''ALT'', ''SHIFT'', ''WIN''}"
  unfolding modifier_of_def
  by (cases "p = ''CONTROL'' \<or> p = ''CTRL''"; cases "p = ''ALT''"; cases "p = ''SHIFT''";
      cases "p = ''WIN'' \<or> p = ''WINDOWS'' \<or> p = ''SUPER'' \<or> p = ''META''")
     (simp_all only: if_True if_False option.inject option.distinct insert_iff simp_thms)

lemma named_modifiers_range: "named_modifiers ps \<subseteq> {''CTRL'', ''ALT'', ''SHIFT'', ''WIN''}"
proof
  fix m assume "m \<in> named_modifiers ps"
  then obtain p where "modifier_of p = Some m"
    by (auto simp: named_modifiers_def map_filter_def)
  then show "m \<in> {''CTRL'', ''ALT'', ''SHIFT'', ''WIN''}"
    by (rule modifier_of_range)
qed


lemma filter_four:
  "filter P [x1, x2, x3, x4] =
     (if P x1 then [x1] else []) @ (if P x2 then [x2] else [])
     @ (if P x3 then [x3] else []) @ (if P x4 then [x4] else [])"
  by simp

lemma format_hotkey_filter:
  "format_hotkey mods key =
     (let nice = filter (\<lambda>n. upper n \<in> mods) [''Ctrl'', ''Alt'', ''Shift'', ''Win''];
          k = upper key;
          nice' = (if k \<noteq> [] then nice @ [k] else nice)
      in if nice' \<noteq> [] then join ''+'' nice' else [])"
  by (simp only: format_hotkey_def filter_four labels_upper)

lemma format_hotkey_symbol:
  assumes "key \<noteq> []" "upper key = key"
  shows "format_hotkey mods key =
     join ''+'' (filter (\<lambda>n. upper n \<in> mods) [''Ctrl'', ''Alt'', ''Shift'', ''Win''] @ [key])"
  unfolding format_hotkey_filter Let_def assms(2)
  using assms(1) by (simp only: if_True if_False simp_thms append_is_Nil_conv list.distinct)

lemma format_hotkey_null: "format_hotkey {} [] = []"
  by code_simp

lemma parse_hotkey_blank_strip: "strip s = [] \<Longrightarrow> parse_hotkey s = Inr (''kb'', {}, [])"
  by (simp add: parse_hotkey_def)

lemma parse_hotkey_gp:
  assumes "strip s \<noteq> []" "is_gamepad_hotkey s"
  shows "\<exists>b. parse_hotkey s = Inr (''gp'', {}, b)"
proof -
  have g: "is_gamepad_hotkey (strip s)"
    using assms(2) by (simp only: gamepad_strip)
  then have "CHR '':'' \<in> set (strip s)"
    by (rule gamepad_has_colon)
  from split_once_second [OF this] assms(1) g show ?thesis
    by (simp add: parse_hotkey_def)
qed

lemma modifier_of_Nil: "modifier_of [] = None"
  by code_simp

lemma kinds_differ: "''gp'' \<noteq> ''kb''"
  by simp

lemma parse_kb_cases:
  assumes "parse_hotkey s = Inr (''kb'', mods, key)"
  shows "(mods = {} \<and> key = []) \<or>
         (\<exists>ps. ps \<noteq> [] \<and> (\<forall>p \<in> set ps. p \<noteq> [] \<and> upper p = p \<and> strip p = p
                  \<and> CHR ''+'' \<notin> set p \<and> CHR ''-'' \<notin> set p)
            \<and> mods = named_modifiers ps
            \<and> key = (if filter (\<lambda>p. modifier_of p = None) ps \<noteq> []
                     then last (filter (\<lambda>p. modifier_of p = None) ps) else last ps))"
proof (cases "strip s = []")
  case True
  with assms show ?thesis
    by (simp add: parse_hotkey_blank_strip)
next
  case False
  show ?thesis
  proof (cases "is_gamepad_hotkey s")
    case True
    with False assms parse_hotkey_gp [of s] show ?thesis
      using kinds_differ by auto
  next
    case ng: False
    let ?ps = "hotkey_parts (strip s)"
    note p = parse_hotkey_kb [OF False ng]
    show ?thesis
    proof (cases "?ps = []")
      case True
      with p assms show ?thesis
        by (simp add: named_modifiers_Nil)
    next
      case ne: False
      have "\<forall>p \<in> set ?ps. p \<noteq> [] \<and> upper p = p \<and> strip p = p
                  \<and> CHR ''+'' \<notin> set p \<and> CHR ''-'' \<notin> set p"
        using hotkey_parts_props by blast
      moreover have "mods = named_modifiers ?ps"
        using p assms by simp
      moreover have "key = (if filter (\<lambda>p. modifier_of p = None) ?ps \<noteq> []
                     then last (filter (\<lambda>p. modifier_of p = None) ?ps) else last ?ps)"
        using p assms ne by simp
      ultimately show ?thesis
        using ne by blast
    qed
  qed
qed

lemma parse_kb_wf:
  assumes "parse_hotkey s = Inr (''kb'', mods, key)"
  shows "mods \<subseteq> {''CTRL'', ''ALT'', ''SHIFT'', ''WIN''}"
    and "key = [] \<longrightarrow> mods = {}"
    and "key \<noteq> [] \<longrightarrow> upper key = key \<and> strip key = key
            \<and> CHR ''+'' \<notin> set key \<and> CHR ''-'' \<notin> set key"
    and "\<forall>m. modifier_of key = Some m \<longrightarrow> m \<in> mods"
proof -
  from parse_kb_cases [OF assms] consider
    (null) "mods = {}" "key = []"
  | (parts) ps where "ps \<noteq> []"
      "\<forall>p \<in> set ps. p \<noteq> [] \<and> upper p = p \<and> strip p = p
                  \<and> CHR ''+'' \<notin> set p \<and> CHR ''-'' \<notin> set p"
      "mods = named_modifiers ps"
      "key = (if filter (\<lambda>p. modifier_of p = None) ps \<noteq> []
              then last (filter (\<lambda>p. modifier_of p = None) ps) else last ps)"
    by blast
  then have "mods \<subseteq> {''CTRL'', ''ALT'', ''SHIFT'', ''WIN''}
     \<and> (key = [] \<longrightarrow> mods = {})
     \<and> (key \<noteq> [] \<longrightarrow> upper key = key \<and> strip key = key
            \<and> CHR ''+'' \<notin> set key \<and> CHR ''-'' \<notin> set key)
     \<and> (\<forall>m. modifier_of key = Some m \<longrightarrow> m \<in> mods)"
  proof cases
    case null
    then show ?thesis
      by (simp add: modifier_of_Nil)
  next
    case parts
    let ?ns = "filter (\<lambda>p. modifier_of p = None) ps"
    have k: "key \<in> set ps"
    proof (cases "?ns = []")
      case True
      with parts(1,4) show ?thesis by simp
    next
      case False
      then have "last ?ns \<in> set ?ns" by (rule last_in_set)
      with False parts(4) show ?thesis by simp
    qed
    have m: "m \<in> mods" if "modifier_of key = Some m" for m
      using that k parts(3) by (force simp: named_modifiers_def map_filter_def)
    from k parts(2) have "key \<noteq> [] \<and> upper key = key \<and> strip key = key
            \<and> CHR ''+'' \<notin> set key \<and> CHR ''-'' \<notin> set key"
      by blast
    with m parts(3) named_modifiers_range [of ps] show ?thesis
      by blast
  qed
  then show "mods \<subseteq> {''CTRL'', ''ALT'', ''SHIFT'', ''WIN''}"
    and "key = [] \<longrightarrow> mods = {}"
    and "key \<noteq> [] \<longrightarrow> upper key = key \<and> strip key = key
            \<and> CHR ''+'' \<notin> set key \<and> CHR ''-'' \<notin> set key"
    and "\<forall>m. modifier_of key = Some m \<longrightarrow> m \<in> mods"
    by blast+
qed

lemma join_not_Nil: "xs \<noteq> [] \<Longrightarrow> hd xs \<noteq> [] \<Longrightarrow> join sep xs \<noteq> []"
  by (induction sep xs rule: join.induct) auto

lemma hd_join: "xs \<noteq> [] \<Longrightarrow> hd xs \<noteq> [] \<Longrightarrow> hd (join sep xs) = hd (hd xs)"
  by (induction sep xs rule: join.induct) auto

lemma join_not_Nil_last: "xs \<noteq> [] \<Longrightarrow> last xs \<noteq> [] \<Longrightarrow> join sep xs \<noteq> []"
  by (induction sep xs rule: join.induct) auto

lemma last_join: "xs \<noteq> [] \<Longrightarrow> last xs \<noteq> [] \<Longrightarrow> last (join sep xs) = last (last xs)"
proof (induction sep xs rule: join.induct)
  case (3 sep x y ys)
  have ly: "last (y # ys) \<noteq> []"
    using 3 by simp
  then have ne: "join sep (y # ys) \<noteq> []"
    by (intro join_not_Nil_last) simp
  have "last (join sep (y # ys)) = last (last (y # ys))"
    using 3 ly by simp
  with ne show ?case
    by simp
qed simp_all

lemma named_modifiers_filter:
  assumes "\<forall>x \<in> set xs. modifier_of x = Some x"
  shows "named_modifiers (filter P xs) = {x \<in> set xs. P x}"
  using assms by (induction xs) (auto simp: named_modifiers_Nil named_modifiers_Cons)

lemma tokens_parts:
  assumes "ts \<noteq> []"
    and "\<forall>x \<in> set ts. x \<noteq> [] \<and> strip x = x \<and> CHR ''+'' \<notin> set x \<and> CHR ''-'' \<notin> set x"
  shows "strip (join ''+'' ts) = join ''+'' ts" "join ''+'' ts \<noteq> []"
    "hotkey_parts (join ''+'' ts) = map upper ts"
proof -
  let ?f = "join ''+'' ts"
  have h: "hd ts \<in> set ts" and l: "last ts \<in> set ts"
    using assms(1) by simp_all
  have hne: "hd ts \<noteq> []" and lne: "last ts \<noteq> []"
    using h l assms(2) by blast+
  show ne: "?f \<noteq> []"
    using assms(1) hne by (rule join_not_Nil)
  have "\<not> isspace (hd (hd ts))"
    using strip_fixed_ends [of "hd ts"] h hne assms(2) by blast
  moreover have "\<not> isspace (last (last ts))"
    using strip_fixed_ends [of "last ts"] l lne assms(2) by blast
  ultimately have "\<not> isspace (hd ?f) \<and> \<not> isspace (last ?f)"
    using hd_join [OF assms(1) hne] last_join [OF assms(1) lne] by simp
  then show st: "strip ?f = ?f"
    by (intro strip_fixed) simp
  have "CHR ''-'' \<notin> (\<Union>x \<in> set ts. set x) \<union> set ''+''"
    using assms(2) by auto
  then have "CHR ''-'' \<notin> set ?f"
    using set_join [of "''+''" ts] by blast
  then have r: "replace_char CHR ''-'' CHR ''+'' ?f = ?f"
    by (rule replace_char_absent)
  have sp: "split_on CHR ''+'' ?f = ts"
    using assms by (intro split_join) auto
  have fl: "filter (\<lambda>p. strip p \<noteq> []) ts = ts"
    using assms(2) by (simp add: filter_id_conv)
  have "map (\<lambda>p. upper (strip p)) ts = map upper ts"
    using assms(2) by (intro map_cong) auto
  then show "hotkey_parts ?f = map upper ts"
    by (simp only: hotkey_parts_def r sp fl)
qed

lemma labels_upper_list:
  "map upper [''Ctrl'', ''Alt'', ''Shift'', ''Win''] = [''CTRL'', ''ALT'', ''SHIFT'', ''WIN'']"
  by (simp only: list.map labels_upper)

lemma names_are_modifiers:
  "\<forall>x \<in> set [''CTRL'', ''ALT'', ''SHIFT'', ''WIN'']. modifier_of x = Some x"
  using labels_modifier by (simp only: list.set ball_simps simp_thms)

lemma format_then_parse:
  assumes sub: "mods \<subseteq> set [''CTRL'', ''ALT'', ''SHIFT'', ''WIN'']"
    and key: "key \<noteq> []" "upper key = key" "strip key = key"
             "CHR ''+'' \<notin> set key" "CHR ''-'' \<notin> set key"
    and own: "\<forall>m. modifier_of key = Some m \<longrightarrow> m \<in> mods"
    and ng: "\<not> is_gamepad_hotkey (format_hotkey mods key)"
  shows "parse_hotkey (format_hotkey mods key) = Inr (''kb'', mods, key)"
proof -
  let ?L = "[''Ctrl'', ''Alt'', ''Shift'', ''Win'']"
  let ?N = "[''CTRL'', ''ALT'', ''SHIFT'', ''WIN'']"
  let ?M = "filter (\<lambda>n. upper n \<in> mods) ?L"
  let ?ts = "?M @ [key]"
  let ?f = "join ''+'' ?ts"
  have f: "format_hotkey mods key = ?f"
    using key(1,2) by (rule format_hotkey_symbol)
  have "\<forall>x \<in> set ?L. x \<noteq> [] \<and> strip x = x \<and> CHR ''+'' \<notin> set x \<and> CHR ''-'' \<notin> set x"
    using labels_clean by (simp only: list_all_iff)
  then have clean: "\<forall>x \<in> set ?ts. x \<noteq> [] \<and> strip x = x \<and> CHR ''+'' \<notin> set x \<and> CHR ''-'' \<notin> set x"
    using key by auto
  have ne: "?ts \<noteq> []" by simp
  note tp = tokens_parts [OF ne clean]
  have "map upper ?M = filter (\<lambda>n. n \<in> mods) (map upper ?L)"
    by (simp only: filter_map comp_def)
  then have um: "map upper ?M = filter (\<lambda>n. n \<in> mods) ?N"
    by (simp only: labels_upper_list)
  have ps: "hotkey_parts (strip ?f) = filter (\<lambda>n. n \<in> mods) ?N @ [key]"
    unfolding tp(1) tp(3) map_append um by (simp only: list.map key(2))
  have nm: "named_modifiers (filter (\<lambda>n. n \<in> mods) ?N) = mods"
    unfolding named_modifiers_filter [OF names_are_modifiers] using sub by blast
  have nk: "named_modifiers [key] \<subseteq> mods"
    using own by (cases "modifier_of key") (simp_all add: named_modifiers_Cons named_modifiers_Nil)
  have mods': "named_modifiers (hotkey_parts (strip ?f)) = mods"
    unfolding ps named_modifiers_append nm using nk by blast
  have "\<forall>x \<in> set (filter (\<lambda>n. n \<in> mods) ?N). modifier_of x \<noteq> None"
    using names_are_modifiers by auto
  then have "filter (\<lambda>p. modifier_of p = None) (filter (\<lambda>n. n \<in> mods) ?N) = []"
    by (simp only: filter_empty_conv)
  then have ns: "filter (\<lambda>p. modifier_of p = None) (hotkey_parts (strip ?f))
      = filter (\<lambda>p. modifier_of p = None) [key]"
    unfolding ps by (simp only: filter_append append_Nil)
  have key': "(if filter (\<lambda>p. modifier_of p = None) (hotkey_parts (strip ?f)) \<noteq> []
          then last (filter (\<lambda>p. modifier_of p = None) (hotkey_parts (strip ?f)))
          else if hotkey_parts (strip ?f) \<noteq> [] then last (hotkey_parts (strip ?f)) else []) = key"
    unfolding ns unfolding ps by (cases "modifier_of key") simp_all
  have s: "strip ?f \<noteq> []"
    using tp(1,2) by simp
  have g: "\<not> is_gamepad_hotkey ?f"
    using ng unfolding f .
  show ?thesis
    unfolding f parse_hotkey_kb [OF s g] mods' key' ..
qed

text \<open>
  C1, as amended. For every keyboard trigger that \<open>parse_hotkey\<close> returns, if its rendering
  by \<open>format_hotkey\<close> is not of the controller form, parsing the rendering returns the
  same trigger: the same kind, the same modifier set and the same symbol.
\<close>

theorem keyboard_round_trip:
  assumes "parse_hotkey s = Inr (''kb'', mods, key)"
    and "\<not> is_gamepad_hotkey (format_hotkey mods key)"
  shows "parse_hotkey (format_hotkey mods key) = Inr (''kb'', mods, key) \<and> round_trips s"
proof -
  note wf = parse_kb_wf [OF assms(1)]
  have rt: "parse_hotkey (format_hotkey mods key) = Inr (''kb'', mods, key)"
  proof (cases "key = []")
    case True
    with wf(2) have m: "mods = {}" by simp
    have "strip [] = []"
      by (simp add: strip_def)
    then have "parse_hotkey [] = Inr (''kb'', {}, [])"
      by (rule parse_hotkey_blank_strip)
    then show ?thesis
      unfolding True m format_hotkey_null .
  next
    case False
    with wf(3) have k: "upper key = key" "strip key = key"
        "CHR ''+'' \<notin> set key" "CHR ''-'' \<notin> set key"
      by simp_all
    have sub: "mods \<subseteq> set [''CTRL'', ''ALT'', ''SHIFT'', ''WIN'']"
      using wf(1) by simp
    show ?thesis
      using sub False k wf(4) assms(2) by (rule format_then_parse)
  qed
  then have "round_trips s"
    unfolding round_trips_def assms(1) by (simp only: sum.case prod.case)
  with rt show ?thesis ..
qed

text \<open>
  C1, as stated, fails: \<open>format_hotkey\<close> takes no kind, so the controller trigger of
  \<open>GP:A\<close> is rendered as \<open>A\<close>, which parses to a keyboard trigger; and the keyboard
  trigger with symbol \<open>GP:A\<close> is rendered as \<open>GP:A\<close>, which parses to a controller trigger.
\<close>

theorem round_trip_counterexample:
  "\<not> round_trips ''GP:A'' \<and> \<not> round_trips ''+GP:A''"
  by code_simp

theorem keyboard_round_trip_witness:
  "parse_hotkey ''ctrl - alt+x+y'' = Inr (''kb'', {''CTRL'', ''ALT''}, ''Y'')
   \<and> \<not> is_gamepad_hotkey (format_hotkey {''CTRL'', ''ALT''} ''Y'')
   \<and> format_hotkey {''CTRL'', ''ALT''} ''Y'' = ''Ctrl+Alt+Y''
   \<and> parse_hotkey (format_hotkey {''CTRL'', ''ALT''} ''Y'') = Inr (''kb'', {''CTRL'', ''ALT''}, ''Y'')
   \<and> round_trips ''ctrl - alt+x+y''"
proof -
  have p: "parse_hotkey ''ctrl - alt+x+y'' = Inr (''kb'', {''CTRL'', ''ALT''}, ''Y'')"
    by code_simp
  have g: "\<not> is_gamepad_hotkey (format_hotkey {''CTRL'', ''ALT''} ''Y'')"
    by code_simp
  have f: "format_hotkey {''CTRL'', ''ALT''} ''Y'' = ''Ctrl+Alt+Y''"
    by code_simp
  note t = keyboard_round_trip [OF p g]
  have 1: "parse_hotkey (format_hotkey {''CTRL'', ''ALT''} ''Y'') = Inr (''kb'', {''CTRL'', ''ALT''}, ''Y'')"
    using t by (rule conjunct1)
  have 2: "round_trips ''ctrl - alt+x+y''"
    using t by (rule conjunct2)
  show ?thesis
    by (intro conjI) (fact p g f 1 2)+
qed

end
